theory Spec2Isabelle
  imports Main "HOL-Library.Word" "HOL-Library.Signed_Division"
begin

unbundle bit_operations_syntax

section \<open>Common types\<close>

type_synonym u8 = "8 word"
type_synonym u16 = "16 word"
type_synonym u32 = "32 word"
type_synonym u64 = "64 word"

text \<open>
  The errors of the model: a failed \<^verbatim>\<open>assert\<close> of the C++ code, and an array
  index outside the array.
\<close>

datatype error = AssertionFailed | OutOfRange

text \<open>
  Modelled from the spec: the macro \<^verbatim>\<open>DMA_CYCLES\<close> is declared in a header that
  is not part of the sources. One bus cycle is eight master cycles
  (\<^verbatim>\<open>clock &= ~(DMA_CYCLES(1)-1)\<close> in the spec is \<^verbatim>\<open>targetClock &= ~0b111\<close>
  in \<^verbatim>\<open>Agnus::executeUntil\<close>).
\<close>

definition DMA_CYCLES :: "int \<Rightarrow> int" where
  "DMA_CYCLES n = 8 * n"

section \<open>Disk controller (DiskController.cpp)\<close>

datatype DriveState =
  DRIVE_DMA_OFF | DRIVE_DMA_WAIT | DRIVE_DMA_READ | DRIVE_DMA_WRITE | DRIVE_DMA_FLUSH

datatype IrqSource = INT_DSKSYN | INT_DSKBLK

text \<open>
  The collaborators of the disk controller whose code is outside the sources are
  parameters of the model: the drive (\<^verbatim>\<open>readHead\<close>, \<^verbatim>\<open>writeHead\<close>,
  \<^verbatim>\<open>rotate\<close>, \<^verbatim>\<open>findSyncMark\<close>, \<^verbatim>\<open>isTurboDrive\<close> act on a drive
  of type \<open>'d\<close>; \<open>resetHeadOffset\<close> is the assignment \<^verbatim>\<open>drive->head.offset = 0\<close>),
  chip memory of type \<open>'m\<close>, the pointer increment macro, the checksum helpers and
  the macro \<^verbatim>\<open>RESET_SNAPSHOT_ITEMS\<close>.
\<close>

record ('d, 'm) Collaborators =
  readHead :: "'d \<Rightarrow> u8 \<times> 'd"
  writeHead :: "u8 \<Rightarrow> 'd \<Rightarrow> 'd"
  rotate :: "'d \<Rightarrow> 'd"
  findSyncMark :: "'d \<Rightarrow> 'd"
  isTurboDrive :: "'d \<Rightarrow> bool"
  resetHeadOffset :: "'d \<Rightarrow> 'd"
  peekChip16 :: "u32 \<Rightarrow> 'm \<Rightarrow> u16"
  pokeChip16 :: "u32 \<Rightarrow> u16 \<Rightarrow> 'm \<Rightarrow> 'm"
  INC_DMAPTR :: "u32 \<Rightarrow> u32"
  fnv_1a_init32 :: u32
  fnv_1a_it32 :: "u32 \<Rightarrow> u16 \<Rightarrow> u32"

text \<open>
  The state the disk controller reads and writes: its own fields, the four drives
  \<^verbatim>\<open>df[0..3]\<close>, chip memory, Agnus' \<^verbatim>\<open>dskpt\<close> and \<^verbatim>\<open>clock\<close>, Paula's
  \<^verbatim>\<open>adkcon\<close>, and the calls of \<^verbatim>\<open>paula->raiseIrq\<close> in order (source and delay;
  the delay is 0 where the call gives none). The fields are declared in a header
  outside the sources: \<^verbatim>\<open>fifo\<close> is a 64-bit word (\<^verbatim>\<open>_dump\<close> prints it with
  \<^verbatim>\<open>%llX\<close>), of which the FIFO uses the low 48 bits; \<^verbatim>\<open>fifoCount\<close> is a number
  that the assertions keep within 0..6; \<^verbatim>\<open>selected\<close> is -1 or a drive number.
\<close>

record ('d, 'm) DiskController =
  fifo :: u64
  fifoCount :: nat
  dsklen :: u16
  dsksync :: u16
  prb :: u8
  selected :: int
  state :: DriveState
  syncFlag :: bool
  incoming :: u8
  incomingCycle :: int
  acceleration :: int
  checksum :: u32
  checkcnt :: u64
  diskToInsert :: "nat option"
  df :: "nat \<Rightarrow> 'd"
  mem :: 'm
  dskpt :: u32
  adkcon :: u16
  agnus_clock :: int
  irqs :: "(IrqSource \<times> int) list"

definition raiseIrq :: "IrqSource \<Rightarrow> int \<Rightarrow> ('d, 'm) DiskController \<Rightarrow> ('d, 'm) DiskController" where
  "raiseIrq src delay s = s\<lparr>irqs := irqs s @ [(src, delay)]\<rparr>"


text \<open>\<^verbatim>\<open>DiskController::getSelectedDrive\<close>: the index into \<^verbatim>\<open>df\<close>, \<open>None\<close> for NULL.\<close>

definition getSelectedDrive :: "('d, 'm) DiskController \<Rightarrow> error + nat option" where
  "getSelectedDrive s =
     (if \<not> selected s < 4 then Inl AssertionFailed
      else Inr (if selected s < 0 then None else Some (nat (selected s))))"

definition clearFifo :: "('d, 'm) DiskController \<Rightarrow> ('d, 'm) DiskController" where
  "clearFifo s = s\<lparr>fifo := 0, fifoCount := 0\<rparr>"

text \<open>
  Modelled from the spec: \<^verbatim>\<open>fifoIsEmpty\<close> and \<^verbatim>\<open>fifoHasWord\<close> are inline
  functions of the header \<^verbatim>\<open>DiskController.h\<close>, which is not among the sources. The
  spec gives \<^verbatim>\<open>compareFifo(word)\<close> as true iff \<^verbatim>\<open>fifoCount \<ge> 2\<close> and the low 16 bits
  match, and \<^verbatim>\<open>readFifo16\<close> as requiring \<^verbatim>\<open>fifoCount \<ge> 2\<close>.
\<close>

definition fifoIsEmpty :: "('d, 'm) DiskController \<Rightarrow> bool" where
  "fifoIsEmpty s = (fifoCount s = 0)"

definition fifoHasWord :: "('d, 'm) DiskController \<Rightarrow> bool" where
  "fifoHasWord s = (fifoCount s \<ge> 2)"

text \<open>\<^verbatim>\<open>DiskController::readFifo\<close>: the byte read and the state after.\<close>

definition readFifo :: "('d, 'm) DiskController \<Rightarrow> error + (u8 \<times> ('d, 'm) DiskController)" where
  "readFifo s =
     (if \<not> fifoCount s > 0 then Inl AssertionFailed
      else let s1 = s\<lparr>fifoCount := fifoCount s - 1\<rparr>
           in Inr (ucast (drop_bit (8 * fifoCount s1) (fifo s1) AND 0xFF), s1))"

text \<open>\<^verbatim>\<open>DiskController::writeFifo\<close>.\<close>

definition writeFifo :: "u8 \<Rightarrow> ('d, 'm) DiskController \<Rightarrow> error + ('d, 'm) DiskController" where
  "writeFifo byte s =
     (if \<not> fifoCount s \<le> 6 then Inl AssertionFailed
      else let s1 = (if fifoCount s = 6 then s\<lparr>fifoCount := fifoCount s - 2\<rparr> else s);
               s2 = s1\<lparr>fifo := push_bit 8 (fifo s1) OR ucast byte\<rparr>
           in Inr (s2\<lparr>fifoCount := fifoCount s2 + 1\<rparr>))"

text \<open>\<^verbatim>\<open>DiskController::compareFifo\<close>.\<close>

definition compareFifo :: "('d, 'm) DiskController \<Rightarrow> u16 \<Rightarrow> bool" where
  "compareFifo s word \<longleftrightarrow> fifoHasWord s \<and> (fifo s AND 0xFFFF) = ucast word"

text \<open>\<^verbatim>\<open>DiskController::executeFifo\<close>, the work of one \<^verbatim>\<open>DSK_ROTATE\<close> event.\<close>

definition executeFifo ::
  "('d, 'm) Collaborators \<Rightarrow> ('d, 'm) DiskController \<Rightarrow> error + ('d, 'm) DiskController" where
  "executeFifo X s =
     (case getSelectedDrive s of
        Inl e \<Rightarrow> Inl e
      | Inr None \<Rightarrow> Inr s
      | Inr (Some i) \<Rightarrow>
          (if state s = DRIVE_DMA_OFF then
             Inr (s\<lparr>df := (df s)(i := rotate X (df s i))\<rparr>)
           else if state s = DRIVE_DMA_WAIT \<or> state s = DRIVE_DMA_READ then
             (let (b, d) = readHead X (df s i);
                  s1 = s\<lparr>df := (df s)(i := d), incoming := b\<rparr>;
                  s2 = s1\<lparr>incomingCycle := agnus_clock s1\<rparr>
              in case writeFifo (incoming s2) s2 of
                   Inl e \<Rightarrow> Inl e
                 | Inr s3 \<Rightarrow>
                     (let s4 = s3\<lparr>syncFlag := compareFifo s3 (dsksync s3)\<rparr>
                      in if syncFlag s4 then
                           (let s5 = raiseIrq INT_DSKSYN 0 s4
                            in if state s5 = DRIVE_DMA_WAIT
                               then Inr (clearFifo (s5\<lparr>state := DRIVE_DMA_READ\<rparr>))
                               else Inr s5)
                         else Inr s4))
           else
             (if fifoIsEmpty s then
                (if state s = DRIVE_DMA_FLUSH then Inr (s\<lparr>state := DRIVE_DMA_OFF\<rparr>) else Inr s)
              else
                (case readFifo s of
                   Inl e \<Rightarrow> Inl e
                 | Inr (outgoing, s1) \<Rightarrow>
                     Inr (s1\<lparr>df := (df s1)(i := writeHead X outgoing (df s1 i))\<rparr>)))))"

text \<open>
  The macros \<^verbatim>\<open>HI_LO\<close>, \<^verbatim>\<open>HI_BYTE\<close> and \<^verbatim>\<open>LO_BYTE\<close> join two bytes into
  a word and split a word into its bytes; \<^verbatim>\<open>Drive::readHead16\<close> and
  \<^verbatim>\<open>Drive::writeHead16\<close> (Drive.cpp) are built from the byte operations.
\<close>

definition HI_LO :: "u8 \<Rightarrow> u8 \<Rightarrow> u16" where
  "HI_LO hi lo = push_bit 8 (ucast hi) OR ucast lo"

definition HI_BYTE :: "u16 \<Rightarrow> u8" where
  "HI_BYTE x = ucast (drop_bit 8 x)"

definition LO_BYTE :: "u16 \<Rightarrow> u8" where
  "LO_BYTE x = ucast (x AND 0xFF)"

definition readHead16 :: "('d, 'm) Collaborators \<Rightarrow> 'd \<Rightarrow> u16 \<times> 'd" where
  "readHead16 X d =
     (let (byte1, d1) = readHead X d;
          (byte2, d2) = readHead X d1
      in (HI_LO byte1 byte2, d2))"

definition writeHead16 :: "('d, 'm) Collaborators \<Rightarrow> u16 \<Rightarrow> 'd \<Rightarrow> 'd" where
  "writeHead16 X v d = writeHead X (LO_BYTE v) (writeHead X (HI_BYTE v) d)"

text \<open>
  \<^verbatim>\<open>DiskController::performTurboRead\<close> on drive \<open>i\<close>: the loop body, run \<open>n\<close>
  times (the bound \<^verbatim>\<open>dsklen & 0x3FFF\<close> does not change in the loop).
\<close>

fun performTurboRead_loop ::
  "('d, 'm) Collaborators \<Rightarrow> nat \<Rightarrow> nat \<Rightarrow> ('d, 'm) DiskController \<Rightarrow> ('d, 'm) DiskController" where
  "performTurboRead_loop X i 0 s = s"
| "performTurboRead_loop X i (Suc n) s =
     (let (word, d) = readHead16 X (df s i);
          s1 = s\<lparr>df := (df s)(i := d)\<rparr>;
          s2 = s1\<lparr>mem := pokeChip16 X (dskpt s1) word (mem s1)\<rparr>;
          s3 = s2\<lparr>dskpt := INC_DMAPTR X (dskpt s2)\<rparr>;
          s4 = s3\<lparr>checksum := fnv_1a_it32 X (checksum s3) word\<rparr>;
          s5 = s4\<lparr>checkcnt := checkcnt s4 + 1\<rparr>
      in performTurboRead_loop X i n s5)"

definition performTurboRead ::
  "('d, 'm) Collaborators \<Rightarrow> nat \<Rightarrow> ('d, 'm) DiskController \<Rightarrow> ('d, 'm) DiskController" where
  "performTurboRead X i s = performTurboRead_loop X i (unat (dsklen s AND 0x3FFF)) s"

text \<open>\<^verbatim>\<open>DiskController::performTurboWrite\<close> on drive \<open>i\<close>.\<close>

fun performTurboWrite_loop ::
  "('d, 'm) Collaborators \<Rightarrow> nat \<Rightarrow> nat \<Rightarrow> ('d, 'm) DiskController \<Rightarrow> ('d, 'm) DiskController" where
  "performTurboWrite_loop X i 0 s = s"
| "performTurboWrite_loop X i (Suc n) s =
     (let word = peekChip16 X (dskpt s) (mem s);
          s1 = s\<lparr>dskpt := INC_DMAPTR X (dskpt s)\<rparr>;
          s2 = s1\<lparr>checksum := fnv_1a_it32 X (checksum s1) word\<rparr>;
          s3 = s2\<lparr>checkcnt := checkcnt s2 + 1\<rparr>;
          s4 = s3\<lparr>df := (df s3)(i := writeHead16 X word (df s3 i))\<rparr>
      in performTurboWrite_loop X i n s4)"

definition performTurboWrite ::
  "('d, 'm) Collaborators \<Rightarrow> nat \<Rightarrow> ('d, 'm) DiskController \<Rightarrow> ('d, 'm) DiskController" where
  "performTurboWrite X i s = performTurboWrite_loop X i (unat (dsklen s AND 0x3FFF)) s"

text \<open>
  \<^verbatim>\<open>DiskController::performTurboDMA\<close> on drive \<open>i\<close>. In state \<^verbatim>\<open>DRIVE_DMA_WAIT\<close>
  the switch falls through into the read case.
\<close>

definition performTurboDMA ::
  "('d, 'm) Collaborators \<Rightarrow> nat \<Rightarrow> ('d, 'm) DiskController \<Rightarrow> ('d, 'm) DiskController" where
  "performTurboDMA X i s =
     (if dsklen s AND 0x3FFF = 0 then s
      else if state s = DRIVE_DMA_WAIT \<or> state s = DRIVE_DMA_READ \<or> state s = DRIVE_DMA_WRITE then
        (let s1 = (if state s = DRIVE_DMA_WAIT then
                     performTurboRead X i (s\<lparr>df := (df s)(i := findSyncMark X (df s i))\<rparr>)
                   else if state s = DRIVE_DMA_READ then performTurboRead X i s
                   else performTurboWrite X i s);
             s2 = raiseIrq INT_DSKBLK (DMA_CYCLES 512) s1
         in s2\<lparr>state := DRIVE_DMA_OFF\<rparr>)
      else s)"

text \<open>
  \<^verbatim>\<open>DiskController::pokeDSKLEN\<close>. The flag \<open>ALIGN_DRIVE_HEAD\<close> says whether the
  preprocessor symbol of that name is defined.
\<close>

definition pokeDSKLEN ::
  "('d, 'm) Collaborators \<Rightarrow> bool \<Rightarrow> u16 \<Rightarrow> ('d, 'm) DiskController \<Rightarrow> error + ('d, 'm) DiskController" where
  "pokeDSKLEN X ALIGN_DRIVE_HEAD newDskLen s =
     (case getSelectedDrive s of
        Inl e \<Rightarrow> Inl e
      | Inr drive \<Rightarrow>
          (let oldDsklen = dsklen s;
               s1 = s\<lparr>checksum := fnv_1a_init32 X, checkcnt := 0\<rparr>;
               s2 = s1\<lparr>dsklen := newDskLen\<rparr>;
               s3 =
                 (if newDskLen AND 0x8000 = 0 then
                    clearFifo (s2\<lparr>state := DRIVE_DMA_OFF\<rparr>)
                  else if oldDsklen AND newDskLen AND 0x8000 \<noteq> 0 then
                    (let s2a = (case drive of
                                  Some i \<Rightarrow>
                                    if ALIGN_DRIVE_HEAD
                                    then s2\<lparr>df := (df s2)(i := resetHeadOffset X (df s2 i))\<rparr>
                                    else s2
                                | None \<Rightarrow> s2)
                     in if oldDsklen AND newDskLen AND 0x4000 \<noteq> 0 then
                          clearFifo (s2a\<lparr>state := DRIVE_DMA_WRITE\<rparr>)
                        else if bit (adkcon s2a) 10 then
                          clearFifo (s2a\<lparr>state := DRIVE_DMA_WAIT\<rparr>)
                        else
                          clearFifo (s2a\<lparr>state := DRIVE_DMA_READ\<rparr>))
                  else s2)
           in case drive of
                Some i \<Rightarrow> if isTurboDrive X (df s3 i) then Inr (performTurboDMA X i s3) else Inr s3
              | None \<Rightarrow> Inr s3))"

text \<open>Writing a sequence of bytes, and reading \<open>n\<close> bytes, one call after the other.\<close>

fun writeFifo_all :: "u8 list \<Rightarrow> ('d, 'm) DiskController \<Rightarrow> error + ('d, 'm) DiskController" where
  "writeFifo_all [] s = Inr s"
| "writeFifo_all (b # bs) s =
     (case writeFifo b s of Inl e \<Rightarrow> Inl e | Inr s1 \<Rightarrow> writeFifo_all bs s1)"

fun readFifo_n :: "nat \<Rightarrow> ('d, 'm) DiskController \<Rightarrow> error + (u8 list \<times> ('d, 'm) DiskController)" where
  "readFifo_n 0 s = Inr ([], s)"
| "readFifo_n (Suc n) s =
     (case readFifo s of
        Inl e \<Rightarrow> Inl e
      | Inr (b, s1) \<Rightarrow>
          (case readFifo_n n s1 of Inl e \<Rightarrow> Inl e | Inr (bs, s2) \<Rightarrow> Inr (b # bs, s2)))"


text \<open>
  Helpers of the proofs, not part of the source: the byte \<open>k\<close> places above the
  youngest one, and the queue the FIFO holds, oldest byte first.
\<close>

definition byte_at :: "u64 \<Rightarrow> nat \<Rightarrow> u8" where
  "byte_at f k = ucast (drop_bit (8 * k) f AND 0xFF)"

definition fifo_bytes :: "('d, 'm) DiskController \<Rightarrow> u8 list" where
  "fifo_bytes s = map (\<lambda>k. byte_at (fifo s) (fifoCount s - 1 - k)) [0..<fifoCount s]"

text \<open>
  A test double for the collaborators: a drive is the list of bytes passing under its
  head, the next one first, and turns like a ring; memory is a function from addresses
  to words. \<open>mock turbo\<close> has drives that report \<open>turbo\<close> as \<^verbatim>\<open>isTurboDrive()\<close>.
\<close>

definition mock :: "bool \<Rightarrow> (u8 list, u32 \<Rightarrow> u16) Collaborators" where
  "mock turbo =
     \<lparr> readHead = (\<lambda>d. case d of [] \<Rightarrow> (0xFF, []) | b # bs \<Rightarrow> (b, bs @ [b])),
       writeHead = (\<lambda>v d. case d of [] \<Rightarrow> [] | b # bs \<Rightarrow> bs @ [v]),
       rotate = rotate1,
       findSyncMark = (\<lambda>d. d),
       isTurboDrive = (\<lambda>d. turbo),
       resetHeadOffset = (\<lambda>d. d),
       peekChip16 = (\<lambda>a m. m a),
       pokeChip16 = (\<lambda>a v m. m(a := v)),
       INC_DMAPTR = (\<lambda>p. (p + 2) AND 0x7FFFE),
       fnv_1a_init32 = 0,
       fnv_1a_it32 = (\<lambda>c w. c + ucast w) \<rparr>"

text \<open>
  A test state: controller idle, FIFO empty, every drive holding the bytes
  \<^verbatim>\<open>12 34 44 89\<close>, drive \<open>sel\<close> selected (\<open>-1\<close> for none), \<open>len\<close> in \<^verbatim>\<open>dsklen\<close>.
\<close>

definition dc_test :: "int \<Rightarrow> u16 \<Rightarrow> DriveState \<Rightarrow> (u8 list, u32 \<Rightarrow> u16) DiskController" where
  "dc_test sel len st =
     \<lparr> fifo = 0, fifoCount = 0, dsklen = len, dsksync = 0x4489, prb = 0xFF,
       selected = sel, state = st, syncFlag = False, incoming = 0, incomingCycle = 0,
       acceleration = 1, checksum = 0, checkcnt = 0, diskToInsert = None,
       df = (\<lambda>i. [0x12, 0x34, 0x44, 0x89]), mem = (\<lambda>a. 0), dskpt = 0, adkcon = 0,
       agnus_clock = 0, irqs = [] \<rparr>"

text \<open>
  A second test state: drive 0 selected, the FIFO full with \<^verbatim>\<open>11 22 33 44 55 44\<close>,
  the drive about to deliver \<^verbatim>\<open>89\<close>.
\<close>

definition dc_test_full :: "DriveState \<Rightarrow> (u8 list, u32 \<Rightarrow> u16) DiskController" where
  "dc_test_full st =
     (dc_test 0 0x8003 st)\<lparr>fifo := 0x112233445544, fifoCount := 6, df := (\<lambda>i. [0x89, 0x12])\<rparr>"

section \<open>Copper (Copper.cpp, Copper.h)\<close>

text \<open>
  The event types of the Copper slot. Their numbers are in a header outside the
  sources; \<^verbatim>\<open>processEvent\<close> only switches on them. \<open>COPPER_OTHER\<close> stands for every
  other number, the \<^verbatim>\<open>default\<close> case of the switch.
\<close>

datatype CopperEvent =
  COPPER_REQUEST_DMA | COPPER_FETCH | COPPER_MOVE | COPPER_WAIT_OR_SKIP
  | COPPER_JMP1 | COPPER_JMP2 | COPPER_OTHER

text \<open>
  The Copper's fields and what it reaches through \<^verbatim>\<open>amiga->\<close>: the beam position and
  clock of the DMA controller, the answer of \<^verbatim>\<open>copperCanHaveBus()\<close>, memory as read by
  \<^verbatim>\<open>mem.peek16\<close>, the calls of \<^verbatim>\<open>mem.pokeCustom16\<close> in order (register and value),
  and the event in \<^verbatim>\<open>COPPER_SLOT\<close> (trigger cycle, type and data; \<open>None\<close> once
  cancelled). The field \<^verbatim>\<open>state\<close> is \<open>copper_state\<close>, \<open>None\<close> for the value 0.
\<close>

record Copper =
  copper_state :: "CopperEvent option"
  skip :: bool
  coplc :: "nat \<Rightarrow> u32"
  cdang :: bool
  copins1 :: u16
  copins2 :: u16
  coppc :: u32
  beam :: u32
  dma_clock :: int
  copperCanHaveBus :: bool
  peek16 :: "u32 \<Rightarrow> u16"
  pokeCustom16_calls :: "(u16 \<times> u16) list"
  copper_slot :: "(int \<times> CopperEvent \<times> int) option"

text \<open>\<^verbatim>\<open>Copper::illegalAddress\<close>.\<close>

definition illegalAddress :: "Copper \<Rightarrow> u32 \<Rightarrow> bool" where
  "illegalAddress s address = ((address AND 0x1FE) \<ge> (if cdang s then 0x40 else 0x80))"

text \<open>\<^verbatim>\<open>Copper::advancePC\<close> (Copper.h).\<close>

definition advancePC :: "Copper \<Rightarrow> Copper" where
  "advancePC s = s\<lparr>coppc := (coppc s + 2) AND 0x7FFFE\<rparr>"

text \<open>The three overloads of \<^verbatim>\<open>Copper::runComparator\<close>.\<close>

definition runComparator3 :: "u32 \<Rightarrow> u32 \<Rightarrow> u32 \<Rightarrow> bool" where
  "runComparator3 beam0 waitpos mask0 = (((beam0 AND 0xFFFF) AND mask0) \<ge> (waitpos AND mask0))"

definition getVPHP :: "Copper \<Rightarrow> u16" where
  "getVPHP s = copins1 s AND 0xFFFE"

definition getVMHM :: "Copper \<Rightarrow> u16" where
  "getVMHM s = copins2 s AND 0x7FFE"

definition runComparator1 :: "Copper \<Rightarrow> u32 \<Rightarrow> bool" where
  "runComparator1 s waitpos = runComparator3 (beam s) waitpos (ucast (getVMHM s))"

definition runComparator0 :: "Copper \<Rightarrow> bool" where
  "runComparator0 s = runComparator1 s (ucast (getVPHP s))"

text \<open>
  \<^verbatim>\<open>Copper::nextTriggerPosition\<close>. The loop runs \<open>i\<close> from 16 down to 0 and leaves
  at the first bit it cannot clear; the first argument of the loop is \<open>i + 1\<close>.
\<close>

fun nextTriggerPosition_loop :: "Copper \<Rightarrow> nat \<Rightarrow> u32 \<Rightarrow> u32" where
  "nextTriggerPosition_loop s 0 pos = pos"
| "nextTriggerPosition_loop s (Suc i) pos =
     (let newPos = pos AND NOT (push_bit i 1)
      in if newPos \<ge> beam s \<and> runComparator1 s newPos
         then nextTriggerPosition_loop s i newPos
         else pos)"

definition nextTriggerPosition :: "Copper \<Rightarrow> u32" where
  "nextTriggerPosition s = nextTriggerPosition_loop s 17 0x1FFFF"

definition isMoveCmd :: "Copper \<Rightarrow> bool" where
  "isMoveCmd s = (copins1 s AND 1 = 0)"

definition isWaitCmd :: "Copper \<Rightarrow> bool" where
  "isWaitCmd s = (copins1 s AND 1 \<noteq> 0 \<and> copins2 s AND 1 = 0)"

definition isSkipCmd :: "Copper \<Rightarrow> bool" where
  "isSkipCmd s = (copins1 s AND 1 \<noteq> 0 \<and> copins2 s AND 1 \<noteq> 0)"

text \<open>\<^verbatim>\<open>Copper::scheduleEventRel\<close> and \<^verbatim>\<open>Copper::cancelEvent\<close>.\<close>

definition scheduleEventRel :: "int \<Rightarrow> CopperEvent \<Rightarrow> int \<Rightarrow> Copper \<Rightarrow> Copper" where
  "scheduleEventRel delta type data s =
     (let trigger = dma_clock s + delta;
          s1 = s\<lparr>copper_slot := Some (trigger, type, data)\<rparr>
      in s1\<lparr>copper_state := Some type\<rparr>)"

definition cancelEvent :: "Copper \<Rightarrow> Copper" where
  "cancelEvent s = (s\<lparr>copper_slot := None\<rparr>)\<lparr>copper_state := None\<rparr>"

definition pokeCustom16 :: "u16 \<Rightarrow> u16 \<Rightarrow> Copper \<Rightarrow> Copper" where
  "pokeCustom16 reg v s = s\<lparr>pokeCustom16_calls := pokeCustom16_calls s @ [(reg, v)]\<rparr>"

text \<open>
  \<^verbatim>\<open>Copper::processEvent\<close>, one definition for each case of the switch. The case
  \<^verbatim>\<open>COPPER_REQUEST_DMA\<close> has no \<^verbatim>\<open>break\<close> and runs into \<^verbatim>\<open>COPPER_FETCH\<close>.
\<close>

definition processEvent_FETCH :: "Copper \<Rightarrow> Copper" where
  "processEvent_FETCH s =
     (if copperCanHaveBus s then
        (let s1 = s\<lparr>copins1 := peek16 s (coppc s)\<rparr>;
             s2 = advancePC s1
         in scheduleEventRel 2 (if isMoveCmd s2 then COPPER_MOVE else COPPER_WAIT_OR_SKIP) 0 s2)
      else s)"

definition processEvent_MOVE :: "Copper \<Rightarrow> Copper" where
  "processEvent_MOVE s =
     (if copperCanHaveBus s then
        (let s1 = s\<lparr>copins2 := peek16 s (coppc s)\<rparr>;
             s2 = advancePC s1;
             reg = copins1 s2 AND 0x1FE
         in if illegalAddress s2 (ucast reg) then cancelEvent s2
            else scheduleEventRel 2 COPPER_FETCH 0 (pokeCustom16 reg (copins2 s2) s2))
      else s)"

definition processEvent_WAIT_OR_SKIP :: "Copper \<Rightarrow> error + Copper" where
  "processEvent_WAIT_OR_SKIP s =
     (if copperCanHaveBus s then
        (let s1 = s\<lparr>copins2 := peek16 s (coppc s)\<rparr>;
             s2 = advancePC s1
         in if isWaitCmd s2 then Inr s2
            else if \<not> isSkipCmd s2 then Inl AssertionFailed
            else (let compare = copins1 s2 AND 0xFFFE;
                      mask0 = copins2 s2 AND 0x7FFE;
                      beam0 = beam s2 AND 0xFFFF
                  in if (beam0 AND ucast mask0) \<ge> ucast (compare AND mask0)
                     then Inr (s2\<lparr>skip := True\<rparr>)
                     else Inr s2))
      else Inr s)"

fun processEvent :: "CopperEvent \<Rightarrow> int \<Rightarrow> Copper \<Rightarrow> error + Copper" where
  "processEvent COPPER_REQUEST_DMA data s =
     Inr (processEvent_FETCH
            (if copperCanHaveBus s then scheduleEventRel 2 COPPER_FETCH 0 s else s))"
| "processEvent COPPER_FETCH data s = Inr (processEvent_FETCH s)"
| "processEvent COPPER_MOVE data s = Inr (processEvent_MOVE s)"
| "processEvent COPPER_WAIT_OR_SKIP data s = processEvent_WAIT_OR_SKIP s"
| "processEvent COPPER_JMP1 data s =
     Inr (scheduleEventRel 2 COPPER_REQUEST_DMA 0 (s\<lparr>coppc := coplc s 0\<rparr>))"
| "processEvent COPPER_JMP2 data s =
     Inr (scheduleEventRel 2 COPPER_REQUEST_DMA 0 (s\<lparr>coppc := coplc s 1\<rparr>))"
| "processEvent COPPER_OTHER data s = Inl AssertionFailed"

text \<open>Events processed one after the other, stopping at a failed assertion.\<close>

fun processEvents :: "CopperEvent list \<Rightarrow> Copper \<Rightarrow> error + Copper" where
  "processEvents [] s = Inr s"
| "processEvents (e # es) s =
     (case processEvent e 0 s of Inl err \<Rightarrow> Inl err | Inr s1 \<Rightarrow> processEvents es s1)"

text \<open>
  A test state: the program \<open>prog\<close> lies in memory from address 0 on, one word every
  two bytes; the bus is granted, the beam is at \<open>b\<close>.
\<close>

definition copper_test :: "u16 list \<Rightarrow> bool \<Rightarrow> u32 \<Rightarrow> Copper" where
  "copper_test prog danger b =
     \<lparr> copper_state = None, skip = False, coplc = (\<lambda>i. 0), cdang = danger,
       copins1 = 0, copins2 = 0, coppc = 0, beam = b, dma_clock = 0,
       copperCanHaveBus = True,
       peek16 = (\<lambda>a. if unat a div 2 < length prog then prog ! (unat a div 2) else 0),
       pokeCustom16_calls = [], copper_slot = None \<rparr>"

section \<open>Agnus (Agnus.cpp)\<close>

text \<open>
  Modelled from the spec: the constants \<^verbatim>\<open>HPOS_MAX\<close> and \<^verbatim>\<open>HPOS_CNT\<close> are declared
  in a header outside the sources. The spec gives \<^verbatim>\<open>HPOS_CNT = 0xE3\<close>; the last
  position of a line, where Agnus.cpp puts \<^verbatim>\<open>BPL_EOL\<close>, is \<^verbatim>\<open>0xE2\<close>.
\<close>

definition HPOS_MAX :: nat where
  "HPOS_MAX = 0xE2"

definition HPOS_CNT :: nat where
  "HPOS_CNT = 0xE3"

text \<open>
  The fields of Agnus that \<^verbatim>\<open>execute\<close>, \<^verbatim>\<open>executeUntil\<close> and the jump-table
  functions touch. Modelled from the spec: the beam position \<^verbatim>\<open>pos\<close> is a pair of
  16-bit unsigned counters (here \<open>pos_v\<close>, \<open>pos_h\<close>), \<^verbatim>\<open>clock\<close> and the trigger cycles
  are signed 64-bit cycle counts (here \<open>int\<close>, in the range where the C++ arithmetic
  does not overflow). An event id is its number, \<^verbatim>\<open>EVENT_NONE\<close> being 0; a slot is
  its trigger cycle, event id and data. Everything else of the machine is \<open>other\<close>.
\<close>

record 'x Agnus =
  clock :: int
  pos_v :: u16
  pos_h :: u16
  nextTrigger :: int
  slot :: "(int \<times> nat \<times> int) list"
  busOwner :: "nat list"
  bplEvent :: "nat list"
  dasEvent :: "nat list"
  nextBplEvent :: "u8 list"
  nextDasEvent :: "u8 list"
  other :: 'x

text \<open>
  \<^verbatim>\<open>Agnus::execute\<close>. The function \<^verbatim>\<open>executeEventsUntil\<close> is not in the sources and
  is the parameter \<open>eeu\<close>.
\<close>

definition execute :: "(int \<Rightarrow> 'x Agnus \<Rightarrow> error + 'x Agnus) \<Rightarrow> 'x Agnus \<Rightarrow> error + 'x Agnus" where
  "execute eeu s =
     (case (if nextTrigger s \<le> clock s then eeu (clock s) s
            else if \<not> unat (pos_h s) < 0xE2 then Inl AssertionFailed
            else Inr s) of
        Inl e \<Rightarrow> Inl e
      | Inr s1 \<Rightarrow>
          (let s2 = s1\<lparr>clock := clock s1 + DMA_CYCLES 1\<rparr>
           in if \<not> unat (pos_h s2) \<le> HPOS_MAX then Inl AssertionFailed
              else let s3 = s2\<lparr>pos_h := (if unat (pos_h s2) < HPOS_MAX then pos_h s2 + 1 else 0)\<rparr>
                   in if \<not> unat (pos_h s3) \<le> HPOS_CNT then Inl AssertionFailed else Inr s3))"

text \<open>\<^verbatim>\<open>execute()\<close> called \<open>n\<close> times, stopping at a failed assertion.\<close>

fun execute_n :: "(int \<Rightarrow> 'x Agnus \<Rightarrow> error + 'x Agnus) \<Rightarrow> nat \<Rightarrow> 'x Agnus \<Rightarrow> error + 'x Agnus" where
  "execute_n eeu 0 s = Inr s"
| "execute_n eeu (Suc n) s =
     (case execute eeu s of Inl e \<Rightarrow> Inl e | Inr s1 \<Rightarrow> execute_n eeu n s1)"

text \<open>
  \<^verbatim>\<open>Agnus::executeUntil\<close> (the variant compiled without \<^verbatim>\<open>AGNUS_EXEC_DEBUG\<close>). The
  division of C++ truncates towards zero (\<open>sdiv\<close>).
\<close>

definition executeUntil ::
  "(int \<Rightarrow> 'x Agnus \<Rightarrow> error + 'x Agnus) \<Rightarrow> int \<Rightarrow> 'x Agnus \<Rightarrow> error + 'x Agnus" where
  "executeUntil eeu targetClock0 s =
     (let targetClock = targetClock0 AND NOT 7;
          dmaCycles = (targetClock - clock s) sdiv DMA_CYCLES 1
      in if targetClock < nextTrigger s \<and> dmaCycles > 0 then
           (let s1 = s\<lparr>clock := targetClock\<rparr>;
                s2 = s1\<lparr>pos_h := pos_h s1 + word_of_int dmaCycles\<rparr>
            in if \<not> unat (pos_h s2) \<le> HPOS_CNT then Inl AssertionFailed else Inr s2)
         else execute_n eeu (nat dmaCycles) s)"

text \<open>
  The loop of \<^verbatim>\<open>Agnus::updateBplJumpTable\<close> and \<^verbatim>\<open>Agnus::updateDasJumpTable\<close> over
  an event table \<open>ev\<close> and its jump table \<open>nxt\<close>; \<open>i\<close> runs from \<^verbatim>\<open>end\<close> down to 0,
  the first argument of the loop is \<open>i + 1\<close>.
\<close>

fun updateJumpTable_loop :: "nat list \<Rightarrow> nat \<Rightarrow> u8 \<Rightarrow> u8 list \<Rightarrow> u8 list" where
  "updateJumpTable_loop ev 0 next nxt = nxt"
| "updateJumpTable_loop ev (Suc i) next nxt =
     updateJumpTable_loop ev i (if ev ! i \<noteq> 0 then of_nat i else next) (nxt[i := next])"

definition updateJumpTable :: "int \<Rightarrow> nat list \<Rightarrow> u8 list \<Rightarrow> error + u8 list" where
  "updateJumpTable end ev nxt =
     (if \<not> end \<le> int HPOS_MAX then Inl AssertionFailed
      else if end < 0 \<or> \<not> nat end < length nxt \<or> \<not> nat end < length ev then Inl OutOfRange
      else Inr (updateJumpTable_loop ev (Suc (nat end)) (nxt ! nat end) nxt))"

definition updateBplJumpTable :: "int \<Rightarrow> 'x Agnus \<Rightarrow> error + 'x Agnus" where
  "updateBplJumpTable end s =
     (case updateJumpTable end (bplEvent s) (nextBplEvent s) of
        Inl e \<Rightarrow> Inl e
      | Inr nxt \<Rightarrow> Inr (s\<lparr>nextBplEvent := nxt\<rparr>))"

definition updateDasJumpTable :: "int \<Rightarrow> 'x Agnus \<Rightarrow> error + 'x Agnus" where
  "updateDasJumpTable end s =
     (case updateJumpTable end (dasEvent s) (nextDasEvent s) of
        Inl e \<Rightarrow> Inl e
      | Inr nxt \<Rightarrow> Inr (s\<lparr>nextDasEvent := nxt\<rparr>))"

text \<open>
  The property of a jump table in the spec's words: the entry \<open>r\<close> at position \<open>h\<close>
  is the smallest position after \<open>h\<close> that holds an event, or the sentinel when no
  later position holds one.
\<close>

definition is_next_event :: "nat list \<Rightarrow> nat \<Rightarrow> nat \<Rightarrow> nat \<Rightarrow> bool" where
  "is_next_event ev sentinel h r \<longleftrightarrow>
     (h < r \<and> r < length ev \<and> ev ! r \<noteq> 0 \<and> (\<forall>h' \<in> set [Suc h ..< r]. ev ! h' = 0))
     \<or> ((\<forall>h' \<in> set [Suc h ..< length ev]. ev ! h' = 0) \<and> r = sentinel)"

definition jump_table_ok :: "nat list \<Rightarrow> u8 list \<Rightarrow> nat \<Rightarrow> nat \<Rightarrow> bool" where
  "jump_table_ok ev nxt sentinel h \<longleftrightarrow> is_next_event ev sentinel h (unat (nxt ! h))"

text \<open>
  What a run with argument \<open>e\<close> makes of an entry \<open>h\<close> below \<open>e\<close>: \<open>r\<close> is the
  smallest position after \<open>h\<close> and up to \<open>e\<close> that holds an event, or, when there is
  none, the value \<open>seed\<close>.
\<close>

definition is_next_event_upto :: "nat list \<Rightarrow> nat \<Rightarrow> nat \<Rightarrow> nat \<Rightarrow> nat \<Rightarrow> bool" where
  "is_next_event_upto ev e seed h r \<longleftrightarrow>
     (h < r \<and> r \<le> e \<and> ev ! r \<noteq> 0 \<and> (\<forall>h' \<in> set [Suc h ..< r]. ev ! h' = 0))
     \<or> ((\<forall>h' \<in> set [Suc h ..< Suc e]. ev ! h' = 0) \<and> r = seed)"

text \<open>The entry \<open>h\<close> of a jump table, as a number.\<close>

definition jump_entry :: "nat \<Rightarrow> u8 list \<Rightarrow> nat" where
  "jump_entry h nxt = unat (nxt ! h)"

text \<open>A test double for \<^verbatim>\<open>executeEventsUntil\<close> that serves no event.\<close>

definition no_events :: "int \<Rightarrow> unit Agnus \<Rightarrow> error + unit Agnus" where
  "no_events c s = Inr s"

text \<open>
  A test state: clock \<open>c\<close>, horizontal position \<open>h\<close>, next trigger \<open>t\<close>; the
  bitplane table holds events at \<^verbatim>\<open>0x29\<close> and \<^verbatim>\<open>0xE2\<close>, the other table at
  \<^verbatim>\<open>0x01\<close> and \<^verbatim>\<open>0xDF\<close>; both jump tables are still all zero.
\<close>

definition agnus_test :: "int \<Rightarrow> u16 \<Rightarrow> int \<Rightarrow> unit Agnus" where
  "agnus_test c h t =
     \<lparr> clock = c, pos_v = 0, pos_h = h, nextTrigger = t, slot = [],
       busOwner = replicate 227 0,
       bplEvent = (replicate 227 0)[0x29 := 1, 0xE2 := 2],
       dasEvent = (replicate 227 0)[0x01 := 3, 0xDF := 4],
       nextBplEvent = replicate 227 0,
       nextDasEvent = replicate 227 0,
       other = () \<rparr>"

section \<open>Disk controller: theorems\<close>



subsection \<open>The FIFO as a queue of bytes\<close>

lemma ff_mask: "(0xFF :: u64) = mask 8"
  by (simp add: mask_eq_exp_minus_1)

lemma byte_at_push_0: "byte_at (push_bit 8 f OR ucast b) 0 = (b::u8)"
  unfolding byte_at_def ff_mask
  by (rule bit_word_eqI) (auto simp add: bit_simps)

lemma byte_at_push_Suc:
  "k < 7 \<Longrightarrow> byte_at (push_bit 8 f OR ucast (b::u8)) (Suc k) = byte_at f k"
  unfolding byte_at_def ff_mask
  by (rule bit_word_eqI) (auto simp add: bit_simps dest: bit_imp_le_length)

lemma length_fifo_bytes: "length (fifo_bytes s) = fifoCount s"
  by (simp add: fifo_bytes_def)

lemma writeFifo_bytes:
  assumes "fifoCount s < 6"
  shows "\<exists>s1. writeFifo b s = Inr s1 \<and> fifo_bytes s1 = fifo_bytes s @ [b]
            \<and> fifoCount s1 = Suc (fifoCount s)"
proof -
  let ?s1 = "s\<lparr>fifo := push_bit 8 (fifo s) OR ucast b, fifoCount := Suc (fifoCount s)\<rparr>"
  have w: "writeFifo b s = Inr ?s1"
    using assms by (simp add: writeFifo_def)
  have "fifo_bytes ?s1 = fifo_bytes s @ [b]"
  proof (rule nth_equalityI)
    show "length (fifo_bytes ?s1) = length (fifo_bytes s @ [b])"
      by (simp add: length_fifo_bytes)
  next
    fix i assume "i < length (fifo_bytes ?s1)"
    then have i: "i \<le> fifoCount s" by (simp add: length_fifo_bytes)
    show "fifo_bytes ?s1 ! i = (fifo_bytes s @ [b]) ! i"
    proof (cases "i = fifoCount s")
      case True
      then show ?thesis
        by (simp add: fifo_bytes_def nth_append byte_at_push_0 del: upt_Suc)
    next
      case False
      with i have lt: "i < fifoCount s" by simp
      then have "fifoCount s - i = Suc (fifoCount s - 1 - i)" by simp
      moreover have "fifoCount s - 1 - i < 7" using assms by simp
      ultimately show ?thesis
        using lt by (simp add: fifo_bytes_def nth_append byte_at_push_Suc del: upt_Suc)
    qed
  qed
  with w show ?thesis by simp
qed

lemma readFifo_bytes:
  assumes "fifoCount s > 0"
  shows "\<exists>s1. readFifo s = Inr (hd (fifo_bytes s), s1) \<and> fifo_bytes s1 = tl (fifo_bytes s)
            \<and> fifoCount s1 = fifoCount s - 1"
proof -
  let ?s1 = "s\<lparr>fifoCount := fifoCount s - 1\<rparr>"
  have r: "readFifo s = Inr (byte_at (fifo s) (fifoCount s - 1), ?s1)"
    using assms by (simp add: readFifo_def byte_at_def)
  have h: "hd (fifo_bytes s) = byte_at (fifo s) (fifoCount s - 1)"
    using assms by (simp add: fifo_bytes_def hd_map upt_conv_Cons del: upt_Suc)
  have "fifo_bytes ?s1 = tl (fifo_bytes s)"
  proof (rule nth_equalityI)
    show "length (fifo_bytes ?s1) = length (tl (fifo_bytes s))"
      by (simp add: length_fifo_bytes)
  next
    fix i assume "i < length (fifo_bytes ?s1)"
    then have i: "i < fifoCount s - 1" by (simp add: length_fifo_bytes)
    then have "fifoCount s - 1 - 1 - i = fifoCount s - 1 - Suc i" by simp
    then show "fifo_bytes ?s1 ! i = tl (fifo_bytes s) ! i"
      using i by (simp add: fifo_bytes_def nth_tl del: upt_Suc)
  qed
  with r h show ?thesis by simp
qed

lemma writeFifo_all_bytes:
  "fifoCount s + length bs \<le> 6 \<Longrightarrow>
   \<exists>s1. writeFifo_all bs s = Inr s1 \<and> fifo_bytes s1 = fifo_bytes s @ bs
        \<and> fifoCount s1 = fifoCount s + length bs"
proof (induction bs arbitrary: s)
  case Nil
  then show ?case by simp
next
  case (Cons b bs)
  then have "fifoCount s < 6" by simp
  from writeFifo_bytes [OF this, of b] obtain s1 where
    s1: "writeFifo b s = Inr s1" "fifo_bytes s1 = fifo_bytes s @ [b]"
        "fifoCount s1 = Suc (fifoCount s)"
    by blast
  with Cons.prems have "fifoCount s1 + length bs \<le> 6" by simp
  from Cons.IH [OF this] s1 show ?case by auto
qed

lemma readFifo_n_bytes:
  "n \<le> fifoCount s \<Longrightarrow>
   \<exists>s1. readFifo_n n s = Inr (take n (fifo_bytes s), s1) \<and> fifo_bytes s1 = drop n (fifo_bytes s)
        \<and> fifoCount s1 = fifoCount s - n"
proof (induction n arbitrary: s)
  case 0
  then show ?case by simp
next
  case (Suc n)
  then have pos: "fifoCount s > 0" by simp
  from readFifo_bytes [OF pos] obtain s1 where
    s1: "readFifo s = Inr (hd (fifo_bytes s), s1)" "fifo_bytes s1 = tl (fifo_bytes s)"
        "fifoCount s1 = fifoCount s - 1"
    by blast
  with Suc.prems have "n \<le> fifoCount s1" by simp
  from Suc.IH [OF this] obtain s2 where
    s2: "readFifo_n n s1 = Inr (take n (fifo_bytes s1), s2)"
        "fifo_bytes s2 = drop n (fifo_bytes s1)" "fifoCount s2 = fifoCount s1 - n"
    by blast
  have ne: "fifo_bytes s \<noteq> []"
    using pos length_fifo_bytes [of s] by auto
  then have "take (Suc n) (fifo_bytes s) = hd (fifo_bytes s) # take n (tl (fifo_bytes s))"
    by (cases "fifo_bytes s") simp_all
  moreover have "drop (Suc n) (fifo_bytes s) = drop n (tl (fifo_bytes s))"
    by (simp add: drop_Suc)
  ultimately show ?case using s1 s2 by simp
qed

text \<open>
  Claim C8. Starting from an empty FIFO (\<^verbatim>\<open>fifoCount\<close> is 0), writing up to six bytes
  with \<^verbatim>\<open>writeFifo\<close>, one after the other, and then calling \<^verbatim>\<open>readFifo\<close> as many
  times trips no assertion, returns the bytes written in the order they were written,
  and leaves the FIFO empty (\<^verbatim>\<open>fifoCount\<close> is 0 again).
\<close>

theorem fifo_roundtrip:
  assumes "length bs \<le> 6" and "fifoCount s = 0"
  shows "\<exists>s1 s2. writeFifo_all bs s = Inr s1 \<and> readFifo_n (length bs) s1 = Inr (bs, s2)
              \<and> fifoCount s2 = 0"
proof -
  from assms have "fifoCount s + length bs \<le> 6" by simp
  from writeFifo_all_bytes [OF this] obtain s1 where
    s1: "writeFifo_all bs s = Inr s1" "fifo_bytes s1 = fifo_bytes s @ bs"
        "fifoCount s1 = fifoCount s + length bs"
    by blast
  have e: "fifo_bytes s = []"
    using assms(2) by (simp add: fifo_bytes_def)
  from s1 assms have "length bs \<le> fifoCount s1" by simp
  from readFifo_n_bytes [OF this] obtain s2 where
    s2: "readFifo_n (length bs) s1 = Inr (take (length bs) (fifo_bytes s1), s2)"
        "fifoCount s2 = fifoCount s1 - length bs"
    by blast
  with s1 e assms show ?thesis by simp
qed

theorem fifo_roundtrip_witness:
  "length [0x12, 0x34, 0x44, 0x89, 0xAA, 0xBB :: u8] \<le> 6
   \<and> fifoCount (dc_test (-1) 0 DRIVE_DMA_OFF) = 0
   \<and> (\<exists>s1 s2. writeFifo_all [0x12, 0x34, 0x44, 0x89, 0xAA, 0xBB] (dc_test (-1) 0 DRIVE_DMA_OFF) = Inr s1
         \<and> readFifo_n (length [0x12, 0x34, 0x44, 0x89, 0xAA, 0xBB :: u8]) s1
             = Inr ([0x12, 0x34, 0x44, 0x89, 0xAA, 0xBB], s2)
         \<and> fifoCount s2 = 0)"
proof -
  have l: "length [0x12, 0x34, 0x44, 0x89, 0xAA, 0xBB :: u8] \<le> 6" by simp
  have c: "fifoCount (dc_test (-1) 0 DRIVE_DMA_OFF) = 0" by (simp add: dc_test_def)
  from l c fifo_roundtrip [OF l c] show ?thesis by blast
qed

subsection \<open>Rotate events without a selected drive\<close>

text \<open>
  Claim C9. With no drive selected (\<^verbatim>\<open>selected\<close> is -1), \<^verbatim>\<open>executeFifo\<close> returns
  the state it was given: every field of the disk controller, the drives, memory and
  the list of raised interrupts are as before.
\<close>

theorem executeFifo_unselected_unchanged:
  "selected s = -1 \<Longrightarrow> executeFifo X s = Inr s"
  by (simp add: executeFifo_def getSelectedDrive_def)

theorem executeFifo_unselected_unchanged_witness:
  "selected (dc_test (-1) 0x8003 DRIVE_DMA_READ) = -1
   \<and> executeFifo (mock False) (dc_test (-1) 0x8003 DRIVE_DMA_READ)
       = Inr (dc_test (-1) 0x8003 DRIVE_DMA_READ)"
proof -
  have h: "selected (dc_test (-1) 0x8003 DRIVE_DMA_READ) = -1" by (simp add: dc_test_def)
  from h executeFifo_unselected_unchanged [OF h] show ?thesis by blast
qed

subsection \<open>A rotate event while reading or waiting for the sync mark\<close>




text \<open>The result of a rotate event that reads, field by field.\<close>

lemma executeFifo_read_result:
  assumes st: "state s = DRIVE_DMA_WAIT \<or> state s = DRIVE_DMA_READ"
      and sel: "0 \<le> selected s" "selected s < 4"
      and cnt: "fifoCount s \<le> 6"
      and rd: "readHead X (df s (nat (selected s))) = (b, d)"
  shows "\<exists>s'. executeFifo X s = Inr s'
         \<and> df s' = (df s)(nat (selected s) := d) \<and> incoming s' = b
         \<and> incomingCycle s' = agnus_clock s
         \<and> syncFlag s' = ((if fifoCount s = 6 then 5 else fifoCount s + 1) \<ge> 2
                          \<and> (push_bit 8 (fifo s) OR ucast b) AND 0xFFFF = ucast (dsksync s))
         \<and> irqs s' = (if syncFlag s' then irqs s @ [(INT_DSKSYN, 0)] else irqs s)
         \<and> (if syncFlag s' \<and> state s = DRIVE_DMA_WAIT
            then state s' = DRIVE_DMA_READ \<and> fifo s' = 0 \<and> fifoCount s' = 0
            else state s' = state s \<and> fifo s' = push_bit 8 (fifo s) OR ucast b
                 \<and> fifoCount s' = (if fifoCount s = 6 then 5 else fifoCount s + 1))
         \<and> dsksync s' = dsksync s \<and> dsklen s' = dsklen s \<and> selected s' = selected s"
proof -
  let ?pf = "push_bit 8 (fifo s) OR ucast b"
  let ?pc = "if fifoCount s = 6 then 5 else fifoCount s + 1"
  let ?s3 = "s\<lparr>df := (df s)(nat (selected s) := d), incoming := b,
               incomingCycle := agnus_clock s, fifo := ?pf, fifoCount := ?pc\<rparr>"
  define sync where "sync \<longleftrightarrow> ?pc \<ge> 2 \<and> ?pf AND 0xFFFF = ucast (dsksync s)"
  let ?s4 = "?s3\<lparr>syncFlag := sync\<rparr>"
  have w: "writeFifo b (s\<lparr>df := (df s)(nat (selected s) := d), incoming := b,
               incomingCycle := agnus_clock s\<rparr>) = Inr ?s3"
    using cnt by (simp add: writeFifo_def Let_def)
  have cf: "compareFifo ?s3 (dsksync s) = sync"
    by (simp add: sync_def compareFifo_def fifoHasWord_def)
  have gs: "getSelectedDrive s = Inr (Some (nat (selected s)))"
    using sel by (simp add: getSelectedDrive_def)
  have noff: "state s \<noteq> DRIVE_DMA_OFF" using st by auto
  have ex: "executeFifo X s =
      (if sync then
         (if state s = DRIVE_DMA_WAIT
          then Inr (clearFifo ((raiseIrq INT_DSKSYN 0 ?s4)\<lparr>state := DRIVE_DMA_READ\<rparr>))
          else Inr (raiseIrq INT_DSKSYN 0 ?s4))
       else Inr ?s4)"
    using st noff by (simp add: executeFifo_def gs rd Let_def w cf raiseIrq_def)
  have "\<exists>s'. executeFifo X s = Inr s'
         \<and> df s' = (df s)(nat (selected s) := d) \<and> incoming s' = b
         \<and> incomingCycle s' = agnus_clock s
         \<and> syncFlag s' = sync
         \<and> irqs s' = (if syncFlag s' then irqs s @ [(INT_DSKSYN, 0)] else irqs s)
         \<and> (if syncFlag s' \<and> state s = DRIVE_DMA_WAIT
            then state s' = DRIVE_DMA_READ \<and> fifo s' = 0 \<and> fifoCount s' = 0
            else state s' = state s \<and> fifo s' = ?pf \<and> fifoCount s' = ?pc)
         \<and> dsksync s' = dsksync s \<and> dsklen s' = dsklen s \<and> selected s' = selected s"
    by (cases sync; cases "state s = DRIVE_DMA_WAIT")
       (simp_all add: ex clearFifo_def raiseIrq_def)
  then show ?thesis unfolding sync_def .
qed

text \<open>
  Claim C4. In state \<^verbatim>\<open>DRIVE_DMA_WAIT\<close> or \<^verbatim>\<open>DRIVE_DMA_READ\<close>, with a drive selected
  and the FIFO within its six bytes, \<^verbatim>\<open>executeFifo\<close> reads one byte \<open>b\<close> from the
  selected drive (which moves on to \<open>d\<close>) and pushes it: the FIFO becomes
  \<^verbatim>\<open>(fifo << 8) | b\<close> and \<^verbatim>\<open>fifoCount\<close> grows by one, a full FIFO of six bytes
  dropping its oldest word first (count 5). Then \<^verbatim>\<open>syncFlag\<close> is exactly: that count
  is at least 2 and the low 16 bits of that FIFO equal \<^verbatim>\<open>dsksync\<close>. When that holds,
  \<^verbatim>\<open>INT_DSKSYN\<close> is raised (once, without delay), and if the state was
  \<^verbatim>\<open>DRIVE_DMA_WAIT\<close> the state becomes \<^verbatim>\<open>DRIVE_DMA_READ\<close> and the FIFO is cleared;
  otherwise the state stays and the FIFO is the one with \<open>b\<close> pushed; no interrupt is
  raised when the flag is false.
\<close>

theorem executeFifo_read_step:
  assumes st: "state s = DRIVE_DMA_WAIT \<or> state s = DRIVE_DMA_READ"
      and sel: "0 \<le> selected s" "selected s < 4"
      and cnt: "fifoCount s \<le> 6"
      and rd: "readHead X (df s (nat (selected s))) = (b, d)"
  shows "\<exists>s'. executeFifo X s = Inr s'
         \<and> df s' = (df s)(nat (selected s) := d) \<and> incoming s' = b
         \<and> incomingCycle s' = agnus_clock s
         \<and> syncFlag s' = ((if fifoCount s = 6 then 5 else fifoCount s + 1) \<ge> 2
                          \<and> (push_bit 8 (fifo s) OR ucast b) AND 0xFFFF = ucast (dsksync s))
         \<and> irqs s' = (if syncFlag s' then irqs s @ [(INT_DSKSYN, 0)] else irqs s)
         \<and> (if syncFlag s' \<and> state s = DRIVE_DMA_WAIT
            then state s' = DRIVE_DMA_READ \<and> fifo s' = 0 \<and> fifoCount s' = 0
            else state s' = state s \<and> fifo s' = push_bit 8 (fifo s) OR ucast b
                 \<and> fifoCount s' = (if fifoCount s = 6 then 5 else fifoCount s + 1))"
  using executeFifo_read_result [OF st sel cnt rd] by blast

theorem executeFifo_read_step_witness:
  "state (dc_test_full DRIVE_DMA_READ) = DRIVE_DMA_READ
   \<and> 0 \<le> selected (dc_test_full DRIVE_DMA_READ)
   \<and> selected (dc_test_full DRIVE_DMA_READ) < 4
   \<and> fifoCount (dc_test_full DRIVE_DMA_READ) \<le> 6
   \<and> readHead (mock False)
        (df (dc_test_full DRIVE_DMA_READ) (nat (selected (dc_test_full DRIVE_DMA_READ))))
       = (0x89, [0x12, 0x89])
   \<and> (\<exists>s'. executeFifo (mock False) (dc_test_full DRIVE_DMA_READ) = Inr s'
          \<and> incoming s' = 0x89 \<and> syncFlag s' \<and> irqs s' = [(INT_DSKSYN, 0)]
          \<and> state s' = DRIVE_DMA_READ \<and> fifo s' = 0x11223344554489 \<and> fifoCount s' = 5)"
proof -
  let ?s = "dc_test_full DRIVE_DMA_READ"
  have h1: "state ?s = DRIVE_DMA_WAIT \<or> state ?s = DRIVE_DMA_READ"
    and h1': "state ?s = DRIVE_DMA_READ"
    and h2: "0 \<le> selected ?s" and h3: "selected ?s < 4" and h4: "fifoCount ?s \<le> 6"
    and h5: "readHead (mock False) (df ?s (nat (selected ?s))) = (0x89, [0x12, 0x89])"
    by (simp_all add: dc_test_full_def dc_test_def mock_def)
  have v: "fifoCount ?s = 6" "fifo ?s = 0x112233445544" "dsksync ?s = 0x4489" "irqs ?s = []"
    by (simp_all add: dc_test_full_def dc_test_def)
  have c: "(push_bit 8 (0x112233445544 :: u64) OR ucast (0x89 :: u8)) = 0x11223344554489"
    by simp
  have m: "(0x11223344554489 :: u64) AND 0xFFFF = ucast (0x4489 :: u16)"
    by simp
  from executeFifo_read_step [OF h1 h2 h3 h4 h5] obtain s' where
    r: "executeFifo (mock False) ?s = Inr s'" "incoming s' = 0x89"
       "syncFlag s' = ((if fifoCount ?s = 6 then 5 else fifoCount ?s + 1) \<ge> 2
           \<and> (push_bit 8 (fifo ?s) OR ucast (0x89 :: u8)) AND 0xFFFF = ucast (dsksync ?s))"
       "irqs s' = (if syncFlag s' then irqs ?s @ [(INT_DSKSYN, 0)] else irqs ?s)"
       "if syncFlag s' \<and> state ?s = DRIVE_DMA_WAIT
        then state s' = DRIVE_DMA_READ \<and> fifo s' = 0 \<and> fifoCount s' = 0
        else state s' = state ?s \<and> fifo s' = push_bit 8 (fifo ?s) OR ucast (0x89 :: u8)
             \<and> fifoCount s' = (if fifoCount ?s = 6 then 5 else fifoCount ?s + 1)"
    by blast
  from r(3) have sf: "syncFlag s'" by (simp only: v c m) simp
  from r(4) sf have i: "irqs s' = [(INT_DSKSYN, 0)]" by (simp add: v)
  from r(5) h1' have "state s' = DRIVE_DMA_READ" "fifo s' = 0x11223344554489" "fifoCount s' = 5"
    by (simp_all only: v c) simp_all
  with r(1,2) sf i h1' h2 h3 h4 h5 show ?thesis by blast
qed



subsection \<open>Reset\<close>



subsection \<open>Writes to \<^verbatim>\<open>DSKLEN\<close>\<close>

lemma bit15: "(x :: u16) AND 0x8000 = 0 \<longleftrightarrow> \<not> bit x 15"
  using and_exp_eq_0_iff_not_bit [of x 15] by simp

lemma bit14_both: "(x :: u16) AND y AND 0x4000 \<noteq> 0 \<longleftrightarrow> bit x 14 \<and> bit y 14"
  using and_exp_eq_0_iff_not_bit [of "x AND y" 14] by (simp add: bit_and_iff and.assoc)

lemma bit15_both: "(x :: u16) AND y AND 0x8000 \<noteq> 0 \<longleftrightarrow> bit x 15 \<and> bit y 15"
  using and_exp_eq_0_iff_not_bit [of "x AND y" 15] by (simp add: bit_and_iff and.assoc)

lemma bit_test: "bit (x :: u16) n \<longleftrightarrow> x AND 2 ^ n \<noteq> 0"
  using and_exp_eq_0_iff_not_bit [of x n] by auto

text \<open>
  The turbo transfer leaves the state, the interrupts, \<^verbatim>\<open>dsklen\<close> and the FIFO alone
  until \<^verbatim>\<open>performTurboDMA\<close> itself raises \<^verbatim>\<open>INT_DSKBLK\<close> and switches DMA off, which
  it does only for a nonzero word count in state \<^verbatim>\<open>DRIVE_DMA_WAIT\<close>,
  \<^verbatim>\<open>DRIVE_DMA_READ\<close> or \<^verbatim>\<open>DRIVE_DMA_WRITE\<close>.
\<close>

lemma performTurboRead_loop_keeps:
  "state (performTurboRead_loop X i n s) = state s
   \<and> irqs (performTurboRead_loop X i n s) = irqs s
   \<and> dsklen (performTurboRead_loop X i n s) = dsklen s
   \<and> fifo (performTurboRead_loop X i n s) = fifo s
   \<and> fifoCount (performTurboRead_loop X i n s) = fifoCount s"
  by (induction n arbitrary: s) (simp_all add: Let_def split: prod.splits)

lemma performTurboWrite_loop_keeps:
  "state (performTurboWrite_loop X i n s) = state s
   \<and> irqs (performTurboWrite_loop X i n s) = irqs s
   \<and> dsklen (performTurboWrite_loop X i n s) = dsklen s
   \<and> fifo (performTurboWrite_loop X i n s) = fifo s
   \<and> fifoCount (performTurboWrite_loop X i n s) = fifoCount s"
  by (induction n arbitrary: s) (simp_all add: Let_def)

lemma performTurboDMA_fields:
  "state (performTurboDMA X i s) =
     (if dsklen s AND 0x3FFF \<noteq> 0
         \<and> (state s = DRIVE_DMA_WAIT \<or> state s = DRIVE_DMA_READ \<or> state s = DRIVE_DMA_WRITE)
      then DRIVE_DMA_OFF else state s)"
  "irqs (performTurboDMA X i s) =
     (if dsklen s AND 0x3FFF \<noteq> 0
         \<and> (state s = DRIVE_DMA_WAIT \<or> state s = DRIVE_DMA_READ \<or> state s = DRIVE_DMA_WRITE)
      then irqs s @ [(INT_DSKBLK, DMA_CYCLES 512)] else irqs s)"
  "fifo (performTurboDMA X i s) = fifo s"
  "fifoCount (performTurboDMA X i s) = fifoCount s"
  "dsklen (performTurboDMA X i s) = dsklen s"
  by (auto simp add: performTurboDMA_def Let_def raiseIrq_def performTurboRead_def
      performTurboWrite_def performTurboRead_loop_keeps performTurboWrite_loop_keeps)

text \<open>
  Claim C3, as stated, fails when the selected drive is a turbo drive: the write runs
  the whole transfer at once and ends in \<^verbatim>\<open>DRIVE_DMA_OFF\<close>. Here \<^verbatim>\<open>DSKLEN\<close> holds
  \<^verbatim>\<open>0x8001\<close> and \<^verbatim>\<open>0x8001\<close> is written again (bit 15 set in both, bit 14 clear,
  \<^verbatim>\<open>ADKCON\<close> bit 10 clear): the claim gives \<^verbatim>\<open>DRIVE_DMA_READ\<close>, the code leaves
  \<^verbatim>\<open>DRIVE_DMA_OFF\<close>.
\<close>

theorem pokeDSKLEN_turbo_counterexample:
  "bit (dsklen (dc_test 0 0x8001 DRIVE_DMA_OFF)) 15 \<and> bit (0x8001 :: u16) 15
   \<and> \<not> bit (0x8001 :: u16) 14 \<and> \<not> bit (adkcon (dc_test 0 0x8001 DRIVE_DMA_OFF)) 10
   \<and> map_sum id state (pokeDSKLEN (mock True) False 0x8001 (dc_test 0 0x8001 DRIVE_DMA_OFF))
       = Inr DRIVE_DMA_OFF
   \<and> map_sum id state (pokeDSKLEN (mock True) False 0x8001 (dc_test 0 0x8001 DRIVE_DMA_OFF))
       \<noteq> Inr DRIVE_DMA_READ"
proof -
  have "bit (dsklen (dc_test 0 0x8001 DRIVE_DMA_OFF)) 15" and "bit (0x8001 :: u16) 15"
    and "\<not> bit (0x8001 :: u16) 14" and "\<not> bit (adkcon (dc_test 0 0x8001 DRIVE_DMA_OFF)) 10"
    by (simp_all add: dc_test_def bit_test)
  moreover
  have "map_sum id state (pokeDSKLEN (mock True) False 0x8001 (dc_test 0 0x8001 DRIVE_DMA_OFF))
       = Inr DRIVE_DMA_OFF"
    by (simp add: pokeDSKLEN_def getSelectedDrive_def dc_test_def mock_def clearFifo_def
        performTurboDMA_def Let_def raiseIrq_def)
  ultimately show ?thesis by simp
qed

text \<open>
  Claim C3, amended. A write of \<open>n\<close> to \<^verbatim>\<open>DSKLEN\<close> with previous value \<open>o\<close> does
  what the claim says, for every drive, except in one case: when the selected drive is a
  turbo drive, the word count \<^verbatim>\<open>n & 0x3FFF\<close> is not zero, and the state the claim
  names is \<^verbatim>\<open>DRIVE_DMA_WAIT\<close>, \<^verbatim>\<open>DRIVE_DMA_READ\<close> or \<^verbatim>\<open>DRIVE_DMA_WRITE\<close>, the state
  becomes \<^verbatim>\<open>DRIVE_DMA_OFF\<close> instead and \<^verbatim>\<open>INT_DSKBLK\<close> is raised with a delay of 512
  bus cycles. In full: if bit 15 of \<open>n\<close> is clear, the state becomes \<^verbatim>\<open>DRIVE_DMA_OFF\<close>,
  the FIFO is cleared and no interrupt is raised; if bit 15 is set in \<open>o\<close> and \<open>n\<close>,
  the FIFO is cleared and the state becomes \<^verbatim>\<open>DRIVE_DMA_WRITE\<close> when bit 14 is set in
  both, else \<^verbatim>\<open>DRIVE_DMA_WAIT\<close> when \<^verbatim>\<open>ADKCON\<close> bit 10 is set, else \<^verbatim>\<open>DRIVE_DMA_READ\<close>,
  or \<^verbatim>\<open>DRIVE_DMA_OFF\<close> in the turbo case; if bit 15 is set in \<open>n\<close> only, the state is
  unchanged, or \<^verbatim>\<open>DRIVE_DMA_OFF\<close> in the turbo case. (Where \<^verbatim>\<open>ALIGN_DRIVE_HEAD\<close> is
  defined, the drive is asked \<^verbatim>\<open>isTurboDrive()\<close> after its head offset was set to 0.)
\<close>

theorem pokeDSKLEN_state:
  assumes sel: "selected s < 4"
  shows "\<exists>s'. pokeDSKLEN X A n s = Inr s' \<and> dsklen s' = n
     \<and> (\<not> bit n 15 \<longrightarrow>
          state s' = DRIVE_DMA_OFF \<and> fifo s' = 0 \<and> fifoCount s' = 0 \<and> irqs s' = irqs s)
     \<and> (bit n 15 \<and> bit (dsklen s) 15 \<longrightarrow>
          fifo s' = 0 \<and> fifoCount s' = 0
          \<and> (if 0 \<le> selected s \<and> n AND 0x3FFF \<noteq> 0
                \<and> isTurboDrive X (if A then resetHeadOffset X (df s (nat (selected s)))
                                   else df s (nat (selected s)))
             then state s' = DRIVE_DMA_OFF \<and> irqs s' = irqs s @ [(INT_DSKBLK, DMA_CYCLES 512)]
             else state s' = (if bit (dsklen s) 14 \<and> bit n 14 then DRIVE_DMA_WRITE
                              else if bit (adkcon s) 10 then DRIVE_DMA_WAIT
                              else DRIVE_DMA_READ)
                  \<and> irqs s' = irqs s))
     \<and> (bit n 15 \<and> \<not> bit (dsklen s) 15 \<longrightarrow>
          (if 0 \<le> selected s \<and> n AND 0x3FFF \<noteq> 0
              \<and> isTurboDrive X (df s (nat (selected s)))
              \<and> (state s = DRIVE_DMA_WAIT \<or> state s = DRIVE_DMA_READ \<or> state s = DRIVE_DMA_WRITE)
           then state s' = DRIVE_DMA_OFF \<and> irqs s' = irqs s @ [(INT_DSKBLK, DMA_CYCLES 512)]
           else state s' = state s \<and> irqs s' = irqs s))"
proof (cases "selected s < 0")
  case True
  then have gs: "getSelectedDrive s = Inr None"
    by (simp add: getSelectedDrive_def)
  from True show ?thesis
    by (simp add: pokeDSKLEN_def gs Let_def clearFifo_def bit15 bit15_both bit14_both)
next
  case False
  with sel have gs: "getSelectedDrive s = Inr (Some (nat (selected s)))"
    by (simp add: getSelectedDrive_def)
  from False have nn: "0 \<le> selected s" by simp
  consider (c1) "\<not> bit n 15" | (c2) "bit n 15" "bit (dsklen s) 15"
    | (c3) "bit n 15" "\<not> bit (dsklen s) 15"
    by blast
  then show ?thesis
  proof cases
    case c1
    then show ?thesis
      using nn
      by (simp add: pokeDSKLEN_def gs Let_def clearFifo_def bit15 bit15_both bit14_both
          performTurboDMA_fields)
  next
    case c2
    then show ?thesis
      using nn
      by (cases A)
         (simp_all add: pokeDSKLEN_def gs Let_def clearFifo_def bit15 bit15_both bit14_both
            performTurboDMA_fields)
  next
    case c3
    then show ?thesis
      using nn
      by (simp add: pokeDSKLEN_def gs Let_def clearFifo_def bit15 bit15_both bit14_both
          performTurboDMA_fields)
  qed
qed

theorem pokeDSKLEN_state_witness:
  "selected (dc_test 0 0x8003 DRIVE_DMA_OFF) < 4
   \<and> selected (dc_test 0 0x8003 DRIVE_DMA_READ) < 4
   \<and> (\<exists>s'. pokeDSKLEN (mock False) False 0x8003 (dc_test 0 0x8003 DRIVE_DMA_OFF) = Inr s'
          \<and> dsklen s' = 0x8003 \<and> state s' = DRIVE_DMA_READ \<and> fifo s' = 0 \<and> fifoCount s' = 0
          \<and> irqs s' = [])
   \<and> (\<exists>s'. pokeDSKLEN (mock True) False 0x8003 (dc_test 0 0x8003 DRIVE_DMA_OFF) = Inr s'
          \<and> dsklen s' = 0x8003 \<and> state s' = DRIVE_DMA_OFF \<and> fifo s' = 0 \<and> fifoCount s' = 0
          \<and> irqs s' = [(INT_DSKBLK, DMA_CYCLES 512)])
   \<and> (\<exists>s'. pokeDSKLEN (mock True) False 0x0003 (dc_test 0 0x8003 DRIVE_DMA_READ) = Inr s'
          \<and> dsklen s' = 0x0003 \<and> state s' = DRIVE_DMA_OFF \<and> fifo s' = 0 \<and> fifoCount s' = 0
          \<and> irqs s' = [])"
proof -
  let ?s = "dc_test 0 0x8003 DRIVE_DMA_OFF"
  let ?r = "dc_test 0 0x8003 DRIVE_DMA_READ"
  have h1: "selected ?s < 4" and h1r: "selected ?r < 4" by (simp_all add: dc_test_def)
  have bits: "bit (0x8003 :: u16) 15" "\<not> bit (0x8003 :: u16) 14" "\<not> bit (0x0003 :: u16) 15"
    "dsklen ?s = 0x8003" "\<not> bit (adkcon ?s) 10" "irqs ?s = []" "irqs ?r = []"
    "(0x8003 :: u16) AND 0x3FFF \<noteq> 0" "0 \<le> selected ?s"
    by (simp_all add: dc_test_def bit_test)
  have tb: "\<not> isTurboDrive (mock False) (df ?s (nat (selected ?s)))"
    "isTurboDrive (mock True) (df ?s (nat (selected ?s)))"
    by (simp_all add: mock_def)
  from pokeDSKLEN_state [of ?s "mock False" False "0x8003", OF h1] bits tb
  have a: "\<exists>s'. pokeDSKLEN (mock False) False 0x8003 ?s = Inr s'
          \<and> dsklen s' = 0x8003 \<and> state s' = DRIVE_DMA_READ \<and> fifo s' = 0 \<and> fifoCount s' = 0
          \<and> irqs s' = []"
    by auto
  from pokeDSKLEN_state [of ?s "mock True" False "0x8003", OF h1] bits tb
  have b: "\<exists>s'. pokeDSKLEN (mock True) False 0x8003 ?s = Inr s'
          \<and> dsklen s' = 0x8003 \<and> state s' = DRIVE_DMA_OFF \<and> fifo s' = 0 \<and> fifoCount s' = 0
          \<and> irqs s' = [(INT_DSKBLK, DMA_CYCLES 512)]"
    by auto
  from pokeDSKLEN_state [of ?r "mock True" False "0x0003", OF h1r] bits
  have c: "\<exists>s'. pokeDSKLEN (mock True) False 0x0003 ?r = Inr s'
          \<and> dsklen s' = 0x0003 \<and> state s' = DRIVE_DMA_OFF \<and> fifo s' = 0 \<and> fifoCount s' = 0
          \<and> irqs s' = []"
    by auto
  from h1 h1r a b c show ?thesis by blast
qed

section \<open>Copper: theorems\<close>

text \<open>
  What a MOVE does once the bus is granted: the register write happens exactly when
  \<^verbatim>\<open>illegalAddress\<close> is false for the register, and an illegal register cancels the
  Copper's event.
\<close>

lemma processEvent_MOVE_write_iff:
  "copperCanHaveBus s \<Longrightarrow>
   pokeCustom16_calls (processEvent_MOVE s) =
     (if illegalAddress s (ucast (copins1 s AND 0x1FE)) then pokeCustom16_calls s
      else pokeCustom16_calls s @ [(copins1 s AND 0x1FE, peek16 s (coppc s))])"
  by (simp add: processEvent_MOVE_def advancePC_def illegalAddress_def
      cancelEvent_def scheduleEventRel_def pokeCustom16_def Let_def)

lemma processEvent_MOVE_illegal_halts:
  "copperCanHaveBus s \<Longrightarrow> illegalAddress s (ucast (copins1 s AND 0x1FE)) \<Longrightarrow>
   copper_slot (processEvent_MOVE s) = None \<and> copper_state (processEvent_MOVE s) = None"
  by (simp add: processEvent_MOVE_def advancePC_def illegalAddress_def
      cancelEvent_def Let_def)

text \<open>
  Claim C1 (the code departs from it). The claim lets a MOVE to a register in
  \<^verbatim>\<open>0x40..0x7F\<close> write exactly when \<^verbatim>\<open>cdang\<close> is set. \<^verbatim>\<open>illegalAddress\<close> has the
  two bounds the other way round: with \<^verbatim>\<open>cdang\<close> set, a MOVE to \<^verbatim>\<open>0x40\<close> writes
  nothing and cancels the Copper's event; with \<^verbatim>\<open>cdang\<close> clear, the same MOVE writes.
\<close>

theorem move_cdang_inverted:
  "map_sum id pokeCustom16_calls
     (processEvent COPPER_MOVE 0 ((copper_test [0x1234] True 0)\<lparr>copins1 := 0x0040\<rparr>)) = Inr []
   \<and> map_sum id copper_slot
     (processEvent COPPER_MOVE 0 ((copper_test [0x1234] True 0)\<lparr>copins1 := 0x0040\<rparr>)) = Inr None
   \<and> map_sum id pokeCustom16_calls
     (processEvent COPPER_MOVE 0 ((copper_test [0x1234] False 0)\<lparr>copins1 := 0x0040\<rparr>))
       = Inr [(0x40, 0x1234)]"
  by (simp add: processEvent_MOVE_def copper_test_def advancePC_def illegalAddress_def
      cancelEvent_def scheduleEventRel_def pokeCustom16_def Let_def)

text \<open>The register write of a MOVE never looks at the \<^verbatim>\<open>skip\<close> flag.\<close>

lemma processEvent_MOVE_ignores_skip:
  "pokeCustom16_calls (processEvent_MOVE (s\<lparr>skip := b\<rparr>)) = pokeCustom16_calls (processEvent_MOVE s)"
  by (simp add: processEvent_MOVE_def advancePC_def illegalAddress_def
      cancelEvent_def scheduleEventRel_def pokeCustom16_def Let_def)

text \<open>
  Claim C2 (the code departs from it). The program is a SKIP whose comparison holds
  (\<^verbatim>\<open>0001 0001\<close>), then a MOVE of \<^verbatim>\<open>0x1234\<close> to register \<^verbatim>\<open>0x20\<close>. Processing the
  second word of the SKIP sets \<^verbatim>\<open>skip\<close>; the MOVE that follows writes its register
  all the same.
\<close>

theorem skip_does_not_suppress_move:
  "map_sum id skip
     (processEvents [COPPER_WAIT_OR_SKIP]
        ((copper_test [0x0001, 0x0020, 0x1234] False 0)\<lparr>copins1 := 0x0001\<rparr>)) = Inr True
   \<and> map_sum id pokeCustom16_calls
     (processEvents [COPPER_WAIT_OR_SKIP, COPPER_FETCH, COPPER_MOVE]
        ((copper_test [0x0001, 0x0020, 0x1234] False 0)\<lparr>copins1 := 0x0001\<rparr>))
       = Inr [(0x20, 0x1234)]"
proof
  show "map_sum id skip
     (processEvents [COPPER_WAIT_OR_SKIP]
        ((copper_test [0x0001, 0x0020, 0x1234] False 0)\<lparr>copins1 := 0x0001\<rparr>)) = Inr True"
    by (simp add: processEvent_WAIT_OR_SKIP_def copper_test_def advancePC_def isWaitCmd_def
        isSkipCmd_def Let_def)
  show "map_sum id pokeCustom16_calls
     (processEvents [COPPER_WAIT_OR_SKIP, COPPER_FETCH, COPPER_MOVE]
        ((copper_test [0x0001, 0x0020, 0x1234] False 0)\<lparr>copins1 := 0x0001\<rparr>))
       = Inr [(0x20, 0x1234)]"
    by (simp add: processEvent_WAIT_OR_SKIP_def processEvent_FETCH_def processEvent_MOVE_def
        copper_test_def advancePC_def isWaitCmd_def isSkipCmd_def isMoveCmd_def
        illegalAddress_def cancelEvent_def scheduleEventRel_def pokeCustom16_def Let_def)
qed

lemma nextTriggerPosition_loop_numeral:
  "nextTriggerPosition_loop s (numeral k) pos =
     (let newPos = pos AND NOT (push_bit (pred_numeral k) 1)
      in if newPos \<ge> beam s \<and> runComparator1 s newPos
         then nextTriggerPosition_loop s (pred_numeral k) newPos
         else pos)"
  by (simp add: numeral_eq_Suc)

text \<open>The value returned is never below a beam position of at most \<^verbatim>\<open>0x1FFFF\<close>.\<close>

lemma nextTriggerPosition_loop_ge:
  "beam s \<le> pos \<Longrightarrow> beam s \<le> nextTriggerPosition_loop s k pos"
  by (induction k arbitrary: pos) (simp_all add: Let_def)

lemma nextTriggerPosition_ge:
  "beam s \<le> 0x1FFFF \<Longrightarrow> beam s \<le> nextTriggerPosition s"
  by (simp add: nextTriggerPosition_def nextTriggerPosition_loop_ge)

text \<open>
  Claim C5 (the code departs from it). With the beam at 0 and the WAIT instruction
  \<^verbatim>\<open>0003 7FFE\<close> (wait position 2, mask \<^verbatim>\<open>0x7FFE\<close>) in the instruction registers,
  \<^verbatim>\<open>nextTriggerPosition\<close> returns \<^verbatim>\<open>0x1FFFF\<close>, although the comparator of that
  instruction is already true at beam position 2, which lies between the beam and the
  value returned.
\<close>

theorem nextTriggerPosition_not_smallest:
  "nextTriggerPosition ((copper_test [] False 0)\<lparr>copins1 := 0x0003, copins2 := 0x7FFE\<rparr>)
     = 0x1FFFF
   \<and> beam ((copper_test [] False 0)\<lparr>copins1 := 0x0003, copins2 := 0x7FFE\<rparr>) \<le> 2
   \<and> (2 :: u32) < 0x1FFFF
   \<and> runComparator3 2
        (ucast (getVPHP ((copper_test [] False 0)\<lparr>copins1 := 0x0003, copins2 := 0x7FFE\<rparr>)))
        (ucast (getVMHM ((copper_test [] False 0)\<lparr>copins1 := 0x0003, copins2 := 0x7FFE\<rparr>)))"
proof (intro conjI)
  show "nextTriggerPosition ((copper_test [] False 0)\<lparr>copins1 := 0x0003, copins2 := 0x7FFE\<rparr>)
     = 0x1FFFF"
    by (simp add: nextTriggerPosition_def nextTriggerPosition_loop_numeral runComparator1_def
        runComparator3_def getVMHM_def copper_test_def Let_def)
  show "beam ((copper_test [] False 0)\<lparr>copins1 := 0x0003, copins2 := 0x7FFE\<rparr>) \<le> 2"
    by (simp add: copper_test_def)
  show "(2 :: u32) < 0x1FFFF"
    by simp
  show "runComparator3 2
        (ucast (getVPHP ((copper_test [] False 0)\<lparr>copins1 := 0x0003, copins2 := 0x7FFE\<rparr>)))
        (ucast (getVMHM ((copper_test [] False 0)\<lparr>copins1 := 0x0003, copins2 := 0x7FFE\<rparr>)))"
    by (simp add: runComparator3_def getVPHP_def getVMHM_def copper_test_def)
qed

section \<open>Agnus: theorems\<close>

subsection \<open>The jump tables\<close>

lemma length_updateJumpTable_loop: "length (updateJumpTable_loop ev k next nxt) = length nxt"
  by (induction k arbitrary: "next" nxt) simp_all

lemma updateJumpTable_loop_above:
  "k \<le> j \<Longrightarrow> updateJumpTable_loop ev k next nxt ! j = nxt ! j"
  by (induction k arbitrary: "next" nxt) simp_all

lemma find_snoc:
  "find P (xs @ [x]) = (case find P xs of Some y \<Rightarrow> Some y | None \<Rightarrow> if P x then Some x else None)"
  by (induction xs) simp_all

lemma updateJumpTable_loop_below:
  "j < k \<Longrightarrow> k \<le> length nxt \<Longrightarrow>
   updateJumpTable_loop ev k next nxt ! j =
     (case find (\<lambda>h. ev ! h \<noteq> 0) [Suc j ..< k] of None \<Rightarrow> next | Some h \<Rightarrow> of_nat h)"
proof (induction k arbitrary: "next" nxt)
  case 0
  then show ?case by simp
next
  case (Suc i)
  show ?case
  proof (cases "j = i")
    case True
    with Suc.prems show ?thesis
      by (simp add: updateJumpTable_loop_above)
  next
    case False
    with Suc.prems have ji: "j < i" and il: "i \<le> length (nxt[i := next])" by simp_all
    from ji have u: "[Suc j ..< Suc i] = [Suc j ..< i] @ [i]" by simp
    show ?thesis
      using Suc.IH [OF ji il]
      by (simp only: updateJumpTable_loop.simps u find_snoc) (simp split: option.splits)
  qed
qed

lemma find_upt_Some:
  "find P [a ..< b] = Some r \<Longrightarrow> a \<le> r \<and> r < b \<and> P r \<and> (\<forall>h \<in> set [a ..< r]. \<not> P h)"
proof (induction b)
  case 0
  then show ?case by simp
next
  case (Suc b)
  show ?case
  proof (cases "a \<le> b")
    case True
    then have u: "[a ..< Suc b] = [a ..< b] @ [b]" by simp
    show ?thesis
    proof (cases "find P [a ..< b]")
      case None
      with Suc.prems u have "r = b" "P b"
        by (simp_all add: find_snoc split: if_splits)
      moreover from None have "\<forall>h \<in> set [a ..< b]. \<not> P h"
        by (simp add: find_None_iff)
      ultimately show ?thesis using True by simp
    next
      case (Some y)
      with Suc.prems u have "find P [a ..< b] = Some r" by (simp add: find_snoc)
      from Suc.IH [OF this] show ?thesis by simp
    qed
  next
    case False
    with Suc.prems show ?thesis by simp
  qed
qed

lemma is_next_event_extend:
  assumes z: "\<forall>h' \<in> set [Suc h ..< Suc e]. ev ! h' = 0" and he: "h \<le> e"
      and n: "is_next_event ev sentinel e r"
  shows "is_next_event ev sentinel h r"
proof -
  from n consider
      (ev) "e < r" "r < length ev" "ev ! r \<noteq> 0" "\<forall>h' \<in> set [Suc e ..< r]. ev ! h' = 0"
    | (none) "\<forall>h' \<in> set [Suc e ..< length ev]. ev ! h' = 0" "r = sentinel"
    by (auto simp add: is_next_event_def)
  then show ?thesis
  proof cases
    case ev
    have "\<forall>h' \<in> set [Suc h ..< r]. ev ! h' = 0"
    proof
      fix h' assume "h' \<in> set [Suc h ..< r]"
      then have "h' \<in> set [Suc h ..< Suc e] \<or> h' \<in> set [Suc e ..< r]" by auto
      with z ev(4) show "ev ! h' = 0" by blast
    qed
    with ev he show ?thesis by (simp add: is_next_event_def)
  next
    case none
    have "\<forall>h' \<in> set [Suc h ..< length ev]. ev ! h' = 0"
    proof
      fix h' assume "h' \<in> set [Suc h ..< length ev]"
      then have "h' \<in> set [Suc h ..< Suc e] \<or> h' \<in> set [Suc e ..< length ev]" by auto
      with z none(1) show "ev ! h' = 0" by blast
    qed
    with none show ?thesis by (simp add: is_next_event_def)
  qed
qed

lemma updateJumpTable_ok:
  assumes le: "length ev = HPOS_CNT" and ln: "length nxt = HPOS_CNT"
      and e0: "0 \<le> e" and e1: "e \<le> int HPOS_MAX"
      and tail: "\<forall>h. nat e \<le> h \<and> h \<le> HPOS_MAX \<longrightarrow> jump_table_ok ev nxt sentinel h"
  shows "\<exists>nxt'. updateJumpTable e ev nxt = Inr nxt' \<and> length nxt' = HPOS_CNT
           \<and> (\<forall>h \<le> HPOS_MAX. jump_table_ok ev nxt' sentinel h)"
proof -
  let ?e = "nat e"
  let ?R = "updateJumpTable_loop ev (Suc ?e) (nxt ! ?e) nxt"
  from e0 e1 have eb: "?e \<le> HPOS_MAX" by simp
  then have el: "?e < HPOS_CNT" by (simp add: HPOS_MAX_def HPOS_CNT_def)
  have r: "updateJumpTable e ev nxt = Inr ?R"
    using e0 e1 el le ln by (simp add: updateJumpTable_def)
  have "jump_table_ok ev ?R sentinel h" if h: "h \<le> HPOS_MAX" for h
  proof (cases "h < ?e")
    case False
    then have "?R ! h = nxt ! h"
    proof (cases "h = ?e")
      case True
      then show ?thesis by (simp add: updateJumpTable_loop_above)
    next
      case False
      with \<open>\<not> h < ?e\<close> have "Suc ?e \<le> h" by simp
      then show ?thesis by (rule updateJumpTable_loop_above)
    qed
    moreover from False h tail have "jump_table_ok ev nxt sentinel h" by simp
    ultimately show ?thesis by (simp add: jump_table_ok_def)
  next
    case True
    then have lt: "h < Suc ?e" by simp
    from el ln have "Suc ?e \<le> length nxt" by simp
    from updateJumpTable_loop_below [OF lt this] have
      v: "?R ! h = (case find (\<lambda>h. ev ! h \<noteq> 0) [Suc h ..< Suc ?e] of
                      None \<Rightarrow> nxt ! ?e | Some r \<Rightarrow> of_nat r)" .
    show ?thesis
    proof (cases "find (\<lambda>h. ev ! h \<noteq> 0) [Suc h ..< Suc ?e]")
      case None
      then have z: "\<forall>h' \<in> set [Suc h ..< Suc ?e]. ev ! h' = 0"
        by (auto simp add: find_None_iff)
      from tail eb have "jump_table_ok ev nxt sentinel ?e" by simp
      then have "is_next_event ev sentinel ?e (unat (nxt ! ?e))"
        by (simp add: jump_table_ok_def)
      from is_next_event_extend [OF z _ this] True
      have "is_next_event ev sentinel h (unat (nxt ! ?e))" by simp
      with v None show ?thesis by (simp add: jump_table_ok_def)
    next
      case (Some r)
      from find_upt_Some [OF this] have
        f: "Suc h \<le> r" "r < Suc ?e" "ev ! r \<noteq> 0" "\<forall>h' \<in> set [Suc h ..< r]. ev ! h' = 0"
        by simp_all
      from f(2) eb have rb: "r \<le> 0xE2" by (simp add: HPOS_MAX_def)
      then have "unat (of_nat r :: u8) = r" by (simp add: unat_of_nat)
      moreover from rb le have "r < length ev" by (simp add: HPOS_CNT_def)
      ultimately show ?thesis
        using v Some f by (simp add: jump_table_ok_def is_next_event_def)
    qed
  qed
  with r ln show ?thesis by (simp add: length_updateJumpTable_loop)
qed

lemma jump_table_ok_last:
  "length ev = HPOS_CNT \<Longrightarrow> jump_table_ok ev nxt (unat (nxt ! HPOS_MAX)) HPOS_MAX"
  by (simp add: jump_table_ok_def is_next_event_def HPOS_CNT_def HPOS_MAX_def)

text \<open>
  So a run keeps a table right that was right from \<^verbatim>\<open>end\<close> on
  (\<open>updateJumpTable_ok\<close>). What a run computes in any case is this.
\<close>

lemma updateJumpTable_result:
  assumes le: "length ev = HPOS_CNT" and ln: "length nxt = HPOS_CNT"
      and e0: "0 \<le> e" and e1: "e \<le> int HPOS_MAX"
  shows "\<exists>nxt'. updateJumpTable e ev nxt = Inr nxt' \<and> length nxt' = HPOS_CNT
           \<and> (\<forall>h. h < nat e \<longrightarrow>
                 is_next_event_upto ev (nat e) (jump_entry (nat e) nxt) h (jump_entry h nxt'))
           \<and> (\<forall>h. nat e \<le> h \<longrightarrow> nxt' ! h = nxt ! h)"
proof -
  let ?e = "nat e"
  let ?R = "updateJumpTable_loop ev (Suc ?e) (nxt ! ?e) nxt"
  from e0 e1 have eb: "?e \<le> HPOS_MAX" by simp
  then have el: "?e < HPOS_CNT" by (simp add: HPOS_MAX_def HPOS_CNT_def)
  have r: "updateJumpTable e ev nxt = Inr ?R"
    using e0 e1 el le ln by (simp add: updateJumpTable_def)
  have above: "?R ! h = nxt ! h" if "?e \<le> h" for h
  proof (cases "h = ?e")
    case True
    then show ?thesis by (simp add: updateJumpTable_loop_above)
  next
    case False
    with that have "Suc ?e \<le> h" by simp
    then show ?thesis by (rule updateJumpTable_loop_above)
  qed
  have below: "is_next_event_upto ev ?e (jump_entry ?e nxt) h (jump_entry h ?R)"
    if "h < ?e" for h
  proof -
    from that have lt: "h < Suc ?e" by simp
    from el ln have "Suc ?e \<le> length nxt" by simp
    from updateJumpTable_loop_below [OF lt this] have
      v: "?R ! h = (case find (\<lambda>h. ev ! h \<noteq> 0) [Suc h ..< Suc ?e] of
                      None \<Rightarrow> nxt ! ?e | Some r \<Rightarrow> of_nat r)" .
    show ?thesis
    proof (cases "find (\<lambda>h. ev ! h \<noteq> 0) [Suc h ..< Suc ?e]")
      case None
      then have "\<forall>h' \<in> set [Suc h ..< Suc ?e]. ev ! h' = 0"
        by (auto simp add: find_None_iff)
      with v None show ?thesis
        by (simp add: is_next_event_upto_def jump_entry_def)
    next
      case (Some r)
      from find_upt_Some [OF this] have
        f: "Suc h \<le> r" "r < Suc ?e" "ev ! r \<noteq> 0" "\<forall>h' \<in> set [Suc h ..< r]. ev ! h' = 0"
        by simp_all
      from f(2) eb have rb: "r \<le> 0xE2" by (simp add: HPOS_MAX_def)
      then have "unat (of_nat r :: u8) = r" by (simp add: unat_of_nat)
      with v Some f show ?thesis
        by (simp add: is_next_event_upto_def jump_entry_def)
    qed
  qed
  from r ln above below show ?thesis by (simp add: length_updateJumpTable_loop)
qed

lemma updateJumpTable_at_end:
  assumes "length ev = HPOS_CNT" and "length nxt = HPOS_CNT"
      and "0 \<le> e" and "e \<le> int HPOS_MAX"
  shows "map_sum id (jump_entry (nat e)) (updateJumpTable e ev nxt) = Inr (jump_entry (nat e) nxt)"
proof -
  from assms have "nat e < HPOS_CNT" by (simp add: HPOS_MAX_def HPOS_CNT_def)
  with assms show ?thesis
    by (simp add: updateJumpTable_def jump_entry_def updateJumpTable_loop_above)
qed

lemma is_next_event_upto_test_bpl:
  assumes "is_next_event_upto (bplEvent (agnus_test 0 0 0)) 226 seed 0 r"
  shows "r = 0x29"
proof -
  let ?ev = "bplEvent (agnus_test 0 0 0)"
  have z: "?ev ! 0x29 \<noteq> 0" by (simp add: agnus_test_def)
  have nz: "k = 0x29 \<or> k = 0xE2" if "?ev ! k \<noteq> 0" "k < 227" for k
    using that by (simp add: agnus_test_def nth_list_update split: if_splits)
  from assms consider
      (ev) "0 < r" "r \<le> 226" "?ev ! r \<noteq> 0" "\<forall>h' \<in> set [Suc 0 ..< r]. ?ev ! h' = 0"
    | (none) "\<forall>h' \<in> set [Suc 0 ..< Suc 226]. ?ev ! h' = 0"
    by (auto simp add: is_next_event_upto_def)
  then show ?thesis
  proof cases
    case ev
    from nz [OF ev(3)] ev(2) have "r = 0x29 \<or> r = 0xE2" by simp
    moreover have "r \<noteq> 0xE2"
    proof
      assume "r = 0xE2"
      with ev(4) have "?ev ! 0x29 = 0" by simp
      with z show False by simp
    qed
    ultimately show ?thesis by simp
  next
    case none
    then have "?ev ! 0x29 = 0" by simp
    with z show ?thesis by simp
  qed
qed

text \<open>
  Claim C7, as stated, fails for a rebuild that starts below the last position, as
  \<^verbatim>\<open>updateDasEvents\<close> does with \<^verbatim>\<open>updateDasJumpTable(0x38)\<close>: the scan takes its first
  value from the entry \<^verbatim>\<open>nextDasEvent[0x38]\<close> as it finds it. On a table whose entry
  \<^verbatim>\<open>0x38\<close> holds 0, that entry is 0 after the run, although the position \<^verbatim>\<open>0xDF\<close>
  after it holds an event.
\<close>

theorem jump_table_partial_counterexample:
  "map_sum id (jump_entry 56 \<circ> nextDasEvent) (updateDasJumpTable 56 (agnus_test 0 0 0)) = Inr 0
   \<and> dasEvent (agnus_test 0 0 0) ! 223 \<noteq> 0
   \<and> (56 :: nat) < 223 \<and> 223 \<le> HPOS_MAX"
proof -
  let ?s = "agnus_test 0 0 0"
  have l: "length (dasEvent ?s) = HPOS_CNT" "length (nextDasEvent ?s) = HPOS_CNT"
    by (simp_all add: agnus_test_def HPOS_CNT_def)
  have e: "(0 :: int) \<le> 56" "(56 :: int) \<le> int HPOS_MAX" by (simp_all add: HPOS_MAX_def)
  from updateJumpTable_at_end [OF l e]
  have "map_sum id (jump_entry 56) (updateJumpTable 56 (dasEvent ?s) (nextDasEvent ?s))
      = Inr (jump_entry 56 (nextDasEvent ?s))"
    by simp
  moreover have "jump_entry 56 (nextDasEvent ?s) = 0"
    by (simp add: jump_entry_def agnus_test_def)
  ultimately have "map_sum id (jump_entry 56 \<circ> nextDasEvent) (updateDasJumpTable 56 ?s) = Inr 0"
    by (cases "updateJumpTable 56 (dasEvent ?s) (nextDasEvent ?s)")
       (simp_all add: updateDasJumpTable_def)
  moreover have "dasEvent ?s ! 223 \<noteq> 0" by (simp add: agnus_test_def)
  ultimately show ?thesis by (simp add: HPOS_MAX_def)
qed

text \<open>
  Claim C7, amended. After a run of \<^verbatim>\<open>updateBplJumpTable(end)\<close> with
  \<^verbatim>\<open>0 \<le> end \<le> HPOS_MAX\<close>, for every position \<open>h\<close> below \<^verbatim>\<open>end\<close>, \<^verbatim>\<open>nextBplEvent[h]\<close>
  is the smallest \<open>h'\<close> with \<open>h < h' \<le> end\<close> and \<^verbatim>\<open>bplEvent[h']\<close> not \<^verbatim>\<open>EVENT_NONE\<close>,
  or, when there is no such \<open>h'\<close>, the value that \<^verbatim>\<open>nextBplEvent[end]\<close> held before the
  run; the entries at \<^verbatim>\<open>end\<close> and above are as before (and in the same way for
  \<^verbatim>\<open>updateDasJumpTable\<close>, \<^verbatim>\<open>nextDasEvent\<close> and \<^verbatim>\<open>dasEvent\<close>). For the full rebuild
  (\<^verbatim>\<open>end = HPOS_MAX\<close>) every entry is thus the smallest later position with an event, or
  the value kept in the last entry, which the run does not write.
\<close>

theorem jump_tables_rebuilt:
  assumes "length (bplEvent s) = HPOS_CNT" and "length (nextBplEvent s) = HPOS_CNT"
      and "length (dasEvent s) = HPOS_CNT" and "length (nextDasEvent s) = HPOS_CNT"
      and "0 \<le> eb" and "eb \<le> int HPOS_MAX" and "0 \<le> ed" and "ed \<le> int HPOS_MAX"
  shows "(\<exists>s'. updateBplJumpTable eb s = Inr s' \<and> bplEvent s' = bplEvent s
            \<and> length (nextBplEvent s') = HPOS_CNT
            \<and> (\<forall>h. h < nat eb \<longrightarrow>
                  is_next_event_upto (bplEvent s) (nat eb) (jump_entry (nat eb) (nextBplEvent s))
                    h (jump_entry h (nextBplEvent s')))
            \<and> (\<forall>h. nat eb \<le> h \<longrightarrow> nextBplEvent s' ! h = nextBplEvent s ! h))
       \<and> (\<exists>s'. updateDasJumpTable ed s = Inr s' \<and> dasEvent s' = dasEvent s
            \<and> length (nextDasEvent s') = HPOS_CNT
            \<and> (\<forall>h. h < nat ed \<longrightarrow>
                  is_next_event_upto (dasEvent s) (nat ed) (jump_entry (nat ed) (nextDasEvent s))
                    h (jump_entry h (nextDasEvent s')))
            \<and> (\<forall>h. nat ed \<le> h \<longrightarrow> nextDasEvent s' ! h = nextDasEvent s ! h))"
proof
  from updateJumpTable_result [OF assms(1,2,5,6)] obtain nb where
    "updateJumpTable eb (bplEvent s) (nextBplEvent s) = Inr nb" "length nb = HPOS_CNT"
    "\<forall>h. h < nat eb \<longrightarrow>
       is_next_event_upto (bplEvent s) (nat eb) (jump_entry (nat eb) (nextBplEvent s))
         h (jump_entry h nb)"
    "\<forall>h. nat eb \<le> h \<longrightarrow> nb ! h = nextBplEvent s ! h"
    by blast
  then show "\<exists>s'. updateBplJumpTable eb s = Inr s' \<and> bplEvent s' = bplEvent s
            \<and> length (nextBplEvent s') = HPOS_CNT
            \<and> (\<forall>h. h < nat eb \<longrightarrow>
                  is_next_event_upto (bplEvent s) (nat eb) (jump_entry (nat eb) (nextBplEvent s))
                    h (jump_entry h (nextBplEvent s')))
            \<and> (\<forall>h. nat eb \<le> h \<longrightarrow> nextBplEvent s' ! h = nextBplEvent s ! h)"
    by (simp add: updateBplJumpTable_def)
next
  from updateJumpTable_result [OF assms(3,4,7,8)] obtain nd where
    "updateJumpTable ed (dasEvent s) (nextDasEvent s) = Inr nd" "length nd = HPOS_CNT"
    "\<forall>h. h < nat ed \<longrightarrow>
       is_next_event_upto (dasEvent s) (nat ed) (jump_entry (nat ed) (nextDasEvent s))
         h (jump_entry h nd)"
    "\<forall>h. nat ed \<le> h \<longrightarrow> nd ! h = nextDasEvent s ! h"
    by blast
  then show "\<exists>s'. updateDasJumpTable ed s = Inr s' \<and> dasEvent s' = dasEvent s
            \<and> length (nextDasEvent s') = HPOS_CNT
            \<and> (\<forall>h. h < nat ed \<longrightarrow>
                  is_next_event_upto (dasEvent s) (nat ed) (jump_entry (nat ed) (nextDasEvent s))
                    h (jump_entry h (nextDasEvent s')))
            \<and> (\<forall>h. nat ed \<le> h \<longrightarrow> nextDasEvent s' ! h = nextDasEvent s ! h)"
    by (simp add: updateDasJumpTable_def)
qed

theorem jump_tables_rebuilt_witness:
  "length (bplEvent (agnus_test 0 0 0)) = HPOS_CNT
   \<and> length (nextBplEvent (agnus_test 0 0 0)) = HPOS_CNT
   \<and> length (dasEvent (agnus_test 0 0 0)) = HPOS_CNT
   \<and> length (nextDasEvent (agnus_test 0 0 0)) = HPOS_CNT
   \<and> (0 :: int) \<le> 226 \<and> (226 :: int) \<le> int HPOS_MAX
   \<and> (0 :: int) \<le> 56 \<and> (56 :: int) \<le> int HPOS_MAX
   \<and> (\<exists>s'. updateBplJumpTable 226 (agnus_test 0 0 0) = Inr s'
          \<and> jump_entry 0 (nextBplEvent s') = 0x29
          \<and> jump_entry 226 (nextBplEvent s') = 0)
   \<and> (\<exists>s'. updateDasJumpTable 56 (agnus_test 0 0 0) = Inr s'
          \<and> jump_entry 56 (nextDasEvent s') = 0)"
proof -
  let ?s = "agnus_test 0 0 0"
  have l: "length (bplEvent ?s) = HPOS_CNT" "length (nextBplEvent ?s) = HPOS_CNT"
      "length (dasEvent ?s) = HPOS_CNT" "length (nextDasEvent ?s) = HPOS_CNT"
    by (simp_all add: agnus_test_def HPOS_CNT_def)
  have e: "(0 :: int) \<le> 226" "(226 :: int) \<le> int HPOS_MAX"
      "(0 :: int) \<le> 56" "(56 :: int) \<le> int HPOS_MAX"
    by (simp_all add: HPOS_MAX_def)
  have old: "nextBplEvent ?s ! 226 = 0" "nextDasEvent ?s ! 56 = 0"
    by (simp_all add: agnus_test_def)
  from jump_tables_rebuilt [OF l e] obtain sb sd where
    b: "updateBplJumpTable 226 ?s = Inr sb"
       "\<forall>h. h < nat 226 \<longrightarrow>
          is_next_event_upto (bplEvent ?s) (nat 226) (jump_entry (nat 226) (nextBplEvent ?s))
            h (jump_entry h (nextBplEvent sb))"
       "\<forall>h. nat 226 \<le> h \<longrightarrow> nextBplEvent sb ! h = nextBplEvent ?s ! h"
    and d: "updateDasJumpTable 56 ?s = Inr sd"
       "\<forall>h. nat 56 \<le> h \<longrightarrow> nextDasEvent sd ! h = nextDasEvent ?s ! h"
    by blast
  from b(2) have "is_next_event_upto (bplEvent ?s) 226 (jump_entry 226 (nextBplEvent ?s))
      0 (jump_entry 0 (nextBplEvent sb))"
    by simp
  then have b0: "jump_entry 0 (nextBplEvent sb) = 0x29"
    by (rule is_next_event_upto_test_bpl)
  from b(3) old have b1: "jump_entry 226 (nextBplEvent sb) = 0"
    by (simp add: jump_entry_def)
  from d(2) old have d1: "jump_entry 56 (nextDasEvent sd) = 0"
    by (simp add: jump_entry_def)
  from l e b(1) b0 b1 d(1) d1 show ?thesis by blast
qed

subsection \<open>Single cycles and \<^verbatim>\<open>executeUntil\<close>\<close>

lemma and_not_7: "(x::int) AND NOT 7 = x - x mod 8"
proof -
  have m: "(7::int) = mask 3" by (simp add: mask_eq_exp_minus_1)
  have "x AND NOT (mask 3) = push_bit 3 (drop_bit 3 x)"
    by (rule bit_eqI) (auto simp add: bit_simps)
  also have "\<dots> = x div 8 * 8"
    by (simp add: push_bit_eq_mult drop_bit_eq_div)
  also have "\<dots> = x - x mod 8"
    by (simp add: minus_mod_eq_div_mult)
  finally show ?thesis by (simp add: m)
qed

lemma unat_plus_of_nat:
  "unat (x :: u16) + n \<le> 0xE3 \<Longrightarrow> unat (x + of_nat n) = unat x + n"
proof -
  assume a: "unat x + n \<le> 0xE3"
  then have n: "unat (of_nat n :: u16) = n"
    by (simp add: unat_of_nat)
  with a have "unat x + unat (of_nat n :: u16) < 2 ^ LENGTH(16)" by simp
  then have "unat (x + of_nat n) = unat x + unat (of_nat n :: u16)"
    by (simp only: unat_add_lem)
  with n show ?thesis by simp
qed

lemma execute_idle:
  assumes "clock s < nextTrigger s" and "unat (pos_h s) < HPOS_MAX"
  shows "execute eeu s = Inr (s\<lparr>clock := clock s + DMA_CYCLES 1, pos_h := pos_h s + 1\<rparr>)"
proof -
  from assms(2) have "unat (pos_h s) + 1 \<le> 0xE3" by (simp add: HPOS_MAX_def)
  from unat_plus_of_nat [OF this] have "unat (pos_h s + 1) = unat (pos_h s) + 1" by simp
  with assms show ?thesis
    by (simp add: execute_def Let_def HPOS_MAX_def HPOS_CNT_def)
qed

lemma execute_n_idle:
  "n = 0 \<or> clock s + DMA_CYCLES (int n - 1) < nextTrigger s \<Longrightarrow>
   unat (pos_h s) + n \<le> HPOS_MAX \<Longrightarrow>
   execute_n eeu n s = Inr (s\<lparr>clock := clock s + DMA_CYCLES (int n), pos_h := pos_h s + of_nat n\<rparr>)"
proof (induction n arbitrary: s)
  case 0
  then show ?case by (simp add: DMA_CYCLES_def)
next
  case (Suc n)
  let ?s1 = "s\<lparr>clock := clock s + DMA_CYCLES 1, pos_h := pos_h s + 1\<rparr>"
  from Suc.prems have tr: "clock s + DMA_CYCLES (int n) < nextTrigger s" by simp
  then have "clock s < nextTrigger s" by (simp add: DMA_CYCLES_def)
  moreover from Suc.prems have "unat (pos_h s) < HPOS_MAX" by simp
  ultimately have e: "execute eeu s = Inr ?s1" by (rule execute_idle)
  from Suc.prems(2) have "unat (pos_h s) + 1 \<le> 0xE3" by (simp add: HPOS_MAX_def)
  from unat_plus_of_nat [OF this] have u: "unat (pos_h s + 1) = unat (pos_h s) + 1" by simp
  have a: "n = 0 \<or> clock ?s1 + DMA_CYCLES (int n - 1) < nextTrigger ?s1"
    using tr by (simp add: DMA_CYCLES_def)
  have b: "unat (pos_h ?s1) + n \<le> HPOS_MAX"
    using Suc.prems(2) u by simp
  from Suc.IH [OF a b] e show ?case
    by (simp add: DMA_CYCLES_def algebra_simps)
qed

text \<open>
  A run of single cycles during which no event becomes due, and which trips no
  assertion, stays within the line.
\<close>

lemma execute_n_no_assertion_fits:
  "execute_n eeu n s \<noteq> Inl AssertionFailed \<Longrightarrow> 0 < n \<Longrightarrow>
   clock s + DMA_CYCLES (int n - 1) < nextTrigger s \<Longrightarrow>
   unat (pos_h s) + n \<le> HPOS_MAX"
proof (induction n arbitrary: s)
  case 0
  then show ?case by simp
next
  case (Suc n)
  let ?s1 = "s\<lparr>clock := clock s + DMA_CYCLES 1, pos_h := pos_h s + 1\<rparr>"
  from Suc.prems(3) have tr: "clock s + DMA_CYCLES (int n) < nextTrigger s" by simp
  then have idle: "clock s < nextTrigger s" by (simp add: DMA_CYCLES_def)
  have lt: "unat (pos_h s) < HPOS_MAX"
  proof (rule ccontr)
    assume "\<not> unat (pos_h s) < HPOS_MAX"
    with idle have "execute eeu s = Inl AssertionFailed"
      by (simp add: execute_def HPOS_MAX_def)
    with Suc.prems(1) show False by simp
  qed
  with idle have e: "execute eeu s = Inr ?s1" by (rule execute_idle)
  from lt have "unat (pos_h s) + 1 \<le> 0xE3" by (simp add: HPOS_MAX_def)
  from unat_plus_of_nat [OF this] have u: "unat (pos_h s + 1) = unat (pos_h s) + 1" by simp
  show ?case
  proof (cases "n = 0")
    case True
    with lt show ?thesis by simp
  next
    case False
    from Suc.prems(1) e have a: "execute_n eeu n ?s1 \<noteq> Inl AssertionFailed" by simp
    from False have b: "0 < n" by simp
    have c: "clock ?s1 + DMA_CYCLES (int n - 1) < nextTrigger ?s1"
      using tr by (simp add: DMA_CYCLES_def)
    from Suc.IH [OF a b c] u show ?thesis by simp
  qed
qed

lemma execute_numeral:
  "execute_n eeu (numeral k) s =
     (case execute eeu s of Inl e \<Rightarrow> Inl e | Inr s1 \<Rightarrow> execute_n eeu (pred_numeral k) s1)"
  by (simp add: numeral_eq_Suc)

text \<open>
  Claim C6, as stated, fails in two ways. With a clock that is not a multiple of
  \<^verbatim>\<open>DMA_CYCLES(1)\<close> (clock 4, \<open>N = 1\<close>), \<^verbatim>\<open>executeUntil\<close> rounds the target down, runs
  no cycle and leaves the clock at 4, while one \<^verbatim>\<open>execute()\<close> moves it to 12. And when
  no event is due before the end of the line (position \<^verbatim>\<open>0xE0\<close>, \<open>N = 3\<close>), the
  fast-forward path adds to \<^verbatim>\<open>pos.h\<close> without wrapping and returns with \<^verbatim>\<open>0xE3\<close>,
  while the third \<^verbatim>\<open>execute()\<close> fails its assertion \<^verbatim>\<open>pos.h < 0xE2\<close>.
\<close>

theorem executeUntil_counterexample:
  "map_sum id clock
     (executeUntil no_events (clock (agnus_test 4 0 1808) + DMA_CYCLES 1) (agnus_test 4 0 1808))
     = Inr 4
   \<and> map_sum id clock (execute_n no_events 1 (agnus_test 4 0 1808)) = Inr 12
   \<and> map_sum id pos_h
       (executeUntil no_events (clock (agnus_test 0 0xE0 8000) + DMA_CYCLES 3)
          (agnus_test 0 0xE0 8000))
     = Inr 0xE3
   \<and> execute_n no_events 3 (agnus_test 0 0xE0 8000) = Inl AssertionFailed"
proof (intro conjI)
  show "map_sum id clock
     (executeUntil no_events (clock (agnus_test 4 0 1808) + DMA_CYCLES 1) (agnus_test 4 0 1808))
     = Inr 4"
    by (simp add: executeUntil_def agnus_test_def DMA_CYCLES_def and_not_7 Let_def)
  show "map_sum id clock (execute_n no_events 1 (agnus_test 4 0 1808)) = Inr 12"
    by (simp add: execute_def agnus_test_def DMA_CYCLES_def no_events_def HPOS_MAX_def
        HPOS_CNT_def Let_def)
  show "map_sum id pos_h
       (executeUntil no_events (clock (agnus_test 0 0xE0 8000) + DMA_CYCLES 3)
          (agnus_test 0 0xE0 8000))
     = Inr 0xE3"
    by (simp add: executeUntil_def agnus_test_def DMA_CYCLES_def and_not_7 Let_def HPOS_CNT_def)
  show "execute_n no_events 3 (agnus_test 0 0xE0 8000) = Inl AssertionFailed"
    by (simp add: execute_numeral execute_def agnus_test_def DMA_CYCLES_def no_events_def
        HPOS_MAX_def HPOS_CNT_def Let_def)
qed

text \<open>
  Claim C6, amended. For every configuration and every cycle count \<open>N\<close> such that, if
  \<open>N > 0\<close>, the clock is a multiple of \<^verbatim>\<open>DMA_CYCLES(1)\<close> and, should the target
  \<^verbatim>\<open>clock + DMA_CYCLES(N)\<close> lie below \<^verbatim>\<open>nextTrigger\<close>, \<^verbatim>\<open>pos.h + N\<close> is at most
  \<^verbatim>\<open>HPOS_MAX\<close> (as it is whenever the \<open>N\<close> single cycles trip no assertion,
  \<open>execute_n_no_assertion_fits\<close>): \<open>N\<close> calls of \<^verbatim>\<open>execute()\<close> and one call of
  \<^verbatim>\<open>executeUntil(clock + DMA_CYCLES(N))\<close> give the same result, whatever
  \<^verbatim>\<open>executeEventsUntil\<close> does: the same state in every field (clock, beam position,
  bus owners, slots and the rest), or the same failed assertion. This holds for the
  fast-forward path as for the loop.
\<close>

theorem executeUntil_eq_execute_n:
  assumes al: "0 < N \<longrightarrow> clock s mod DMA_CYCLES 1 = 0"
      and eol: "0 < N \<and> clock s + DMA_CYCLES (int N) < nextTrigger s
                \<longrightarrow> unat (pos_h s) + N \<le> HPOS_MAX"
  shows "executeUntil eeu (clock s + DMA_CYCLES (int N)) s = execute_n eeu N s"
proof (cases "N = 0")
  case True
  have "(clock s AND NOT 7) - clock s = - (clock s mod 8)"
    by (simp only: and_not_7)
  moreover have "(- (clock s mod 8)) sdiv 8 = 0"
    by (simp add: signed_divide_int_def)
  ultimately have "((clock s AND NOT 7) - clock s) sdiv DMA_CYCLES 1 = 0"
    by (simp only: DMA_CYCLES_def mult_1_right)
  then have "executeUntil eeu (clock s) s = Inr s"
    unfolding executeUntil_def Let_def by simp
  with True show ?thesis by (simp add: DMA_CYCLES_def)
next
  case False
  let ?T = "clock s + DMA_CYCLES (int N)"
  from False al have "?T mod 8 = 0"
    by (simp add: DMA_CYCLES_def)
  with and_not_7 [of ?T] have T: "?T AND NOT 7 = ?T"
    by (simp only: diff_0_right)
  have d: "(?T - clock s) sdiv DMA_CYCLES 1 = int N"
    by (simp add: DMA_CYCLES_def signed_divide_int_def sgn_if)
  have eu: "executeUntil eeu ?T s =
      (if ?T < nextTrigger s \<and> 0 < int N then
         (if \<not> unat (pos_h s + word_of_int (int N)) \<le> HPOS_CNT then Inl AssertionFailed
          else Inr (s\<lparr>clock := ?T, pos_h := pos_h s + word_of_int (int N)\<rparr>))
       else execute_n eeu (nat (int N)) s)"
    unfolding executeUntil_def Let_def T d by simp
  show ?thesis
  proof (cases "?T < nextTrigger s")
    case True
    with False eol have p: "unat (pos_h s) + N \<le> HPOS_MAX" by simp
    from True have "N = 0 \<or> clock s + DMA_CYCLES (int N - 1) < nextTrigger s"
      by (simp add: DMA_CYCLES_def)
    from execute_n_idle [OF this p] have
      r: "execute_n eeu N s = Inr (s\<lparr>clock := ?T, pos_h := pos_h s + of_nat N\<rparr>)" .
    from p have "unat (pos_h s) + N \<le> 0xE3" by (simp add: HPOS_MAX_def)
    from unat_plus_of_nat [OF this] p have "unat (pos_h s + of_nat N) \<le> HPOS_CNT"
      by (simp add: HPOS_MAX_def HPOS_CNT_def)
    with True False r show ?thesis
      by (simp add: eu)
  next
    case nf: False
    then show ?thesis
      by (simp add: eu)
  qed
qed

theorem executeUntil_eq_execute_n_witness:
  "(0 :: nat) < 5
   \<and> clock (agnus_test 0 0 1808) mod DMA_CYCLES 1 = 0
   \<and> clock (agnus_test 0 0 1808) + DMA_CYCLES (int 5) < nextTrigger (agnus_test 0 0 1808)
   \<and> unat (pos_h (agnus_test 0 0 1808)) + 5 \<le> HPOS_MAX
   \<and> executeUntil no_events (clock (agnus_test 0 0 1808) + DMA_CYCLES (int 5))
        (agnus_test 0 0 1808)
       = execute_n no_events 5 (agnus_test 0 0 1808)
   \<and> execute_n no_events 5 (agnus_test 0 0 1808) = Inr (agnus_test 40 5 1808)"
proof -
  let ?s = "agnus_test 0 0 1808"
  have h0: "clock ?s mod DMA_CYCLES 1 = 0"
    and a: "clock ?s + DMA_CYCLES (int 5) < nextTrigger ?s"
    and b: "unat (pos_h ?s) + 5 \<le> HPOS_MAX"
    by (simp_all add: agnus_test_def DMA_CYCLES_def HPOS_MAX_def)
  from h0 have h1: "0 < (5 :: nat) \<longrightarrow> clock ?s mod DMA_CYCLES 1 = 0"
    by blast
  from b have h2: "0 < (5 :: nat) \<and> clock ?s + DMA_CYCLES (int 5) < nextTrigger ?s
      \<longrightarrow> unat (pos_h ?s) + 5 \<le> HPOS_MAX"
    by blast
  have "(5 :: nat) = 0 \<or> clock ?s + DMA_CYCLES (int 5 - 1) < nextTrigger ?s"
    by (simp add: agnus_test_def DMA_CYCLES_def)
  from execute_n_idle [OF this b, of no_events]
  have r: "execute_n no_events 5 ?s = Inr (agnus_test 40 5 1808)"
    by (simp add: agnus_test_def DMA_CYCLES_def)
  from executeUntil_eq_execute_n [OF h1 h2] h0 a b r show ?thesis by simp
qed

end
